theory Spec2Isabelle
  imports Main "HOL-Library.Word"
begin

section \<open>Region reclamation of libscm: regions.c and arch.h\<close>

text \<open>
  The development embeds \<^verbatim>\<open>recycle_region\<close> and
  \<^verbatim>\<open>expire_reg_descriptor_if_exists\<close> of \<^verbatim>\<open>regions.c\<close> and the atomic
  primitives of \<^verbatim>\<open>arch.h\<close> as HOL functions over an explicit store, in the
  production build (none of \<^verbatim>\<open>SCM_DEBUG\<close>, \<^verbatim>\<open>SCM_CHECK_CONDITIONS\<close>,
  \<^verbatim>\<open>SCM_PRINTMEM\<close>, \<^verbatim>\<open>SCM_PRINTOVERHEAD\<close> defined).

  \<^item> Addresses and \<^verbatim>\<open>unsigned long\<close> address arithmetic are 64-bit words
    (the x86-64 branch of \<^verbatim>\<open>arch.h\<close>); the null pointer is the word 0.
  \<^item> Region pages and regions live in two typed stores, maps from addresses to
    records; a page that was handed to \<^verbatim>\<open>__real_free\<close> is no longer in the
    store. Dereferencing the null pointer or an address outside the store is
    a fault, returned as \<open>Inl\<close>.
  \<^item> Page counters are natural numbers. The headers that declare the fields
    are not among the sources; the counters are read as \<^verbatim>\<open>unsigned long\<close>,
    the type of the locals they are copied into. A sum of two page counts
    stays below \<open>2^64\<close> (every counted page occupies its own block of the
    address space), so addition is exact; a decrement at 0 does wrap in C and
    is written out in \<open>ulong_dec\<close>.
  \<^item> \<open>dc\<close> is the 32-bit \<^verbatim>\<open>int\<close> that the atomic primitive reads and writes.
\<close>

subsection \<open>Data model\<close>

type_synonym addr = "64 word"

abbreviation NULL :: addr where
  "NULL \<equiv> 0"

text \<open>
  The build-time constants. \<open>memory_offset\<close> is the offset of the member
  \<^verbatim>\<open>memory\<close> in \<^verbatim>\<open>region_page_t\<close> (the size of the page header).
\<close>

record config =
  REGION_PAGE_PAYLOAD_SIZE :: nat
  SCM_REGION_PAGE_FREELIST_SIZE :: nat
  memory_offset :: nat

record region_page =
  nextPage :: addr
  used_memory :: nat
  memory :: "8 word list"

record region =
  number_of_region_pages :: nat
  firstPage :: addr
  lastPage :: addr
  next_free_address :: addr
  last_address_in_last_page :: addr
  dc :: "32 word"
  age :: nat

record descriptor_root_t =
  current_time :: nat
  region_page_pool :: addr
  number_of_pooled_region_pages :: nat

text \<open>
  The store: the regions and the region pages by address, the descriptor
  root of the running thread, and the pages handed to \<^verbatim>\<open>__real_free\<close>, in
  the order of the calls.
\<close>

record state =
  regions :: "addr \<Rightarrow> region option"
  region_pages :: "addr \<Rightarrow> region_page option"
  descriptor_root :: descriptor_root_t
  freed :: "addr list"

datatype fault = NullPointer | InvalidPointer

subsection \<open>Memory access\<close>

definition load_region :: "state \<Rightarrow> addr \<Rightarrow> fault + region" where
  "load_region s r =
     (if r = NULL then Inl NullPointer
      else case regions s r of None \<Rightarrow> Inl InvalidPointer | Some x \<Rightarrow> Inr x)"

definition load_page :: "state \<Rightarrow> addr \<Rightarrow> fault + region_page" where
  "load_page s p =
     (if p = NULL then Inl NullPointer
      else case region_pages s p of None \<Rightarrow> Inl InvalidPointer | Some x \<Rightarrow> Inr x)"

text \<open>A write to one or more fields of a region that has been loaded before.\<close>

definition upd_region :: "addr \<Rightarrow> (region \<Rightarrow> region) \<Rightarrow> state \<Rightarrow> state" where
  "upd_region r f s = s\<lparr>regions := (regions s)(r := map_option f (regions s r))\<rparr>"

text \<open>\<^verbatim>\<open>p->nextPage = v\<close>\<close>

definition store_nextPage :: "addr \<Rightarrow> addr \<Rightarrow> state \<Rightarrow> fault + state" where
  "store_nextPage p v s =
     (case load_page s p of
        Inl e \<Rightarrow> Inl e
      | Inr pg \<Rightarrow> Inr (s\<lparr>region_pages := (region_pages s)(p \<mapsto> pg\<lparr>nextPage := v\<rparr>)\<rparr>))"

text \<open>
  \<^verbatim>\<open>memset(p, 0, REGION_PAGE_SIZE)\<close> on a page that has been loaded before:
  the whole block, header and payload, becomes zero.
\<close>

definition zero_page :: "config \<Rightarrow> region_page" where
  "zero_page cfg =
     \<lparr>nextPage = NULL, used_memory = 0,
      memory = replicate (REGION_PAGE_PAYLOAD_SIZE cfg) 0\<rparr>"

definition memset_page :: "config \<Rightarrow> addr \<Rightarrow> state \<Rightarrow> state" where
  "memset_page cfg p s = s\<lparr>region_pages := (region_pages s)(p \<mapsto> zero_page cfg)\<rparr>"

text \<open>\<^verbatim>\<open>(unsigned long)&p->memory\<close>\<close>

definition memory_addr :: "config \<Rightarrow> addr \<Rightarrow> addr" where
  "memory_addr cfg p = p + of_nat (memory_offset cfg)"

text \<open>
  \<^verbatim>\<open>__real_free(p)\<close>: the page leaves the store and is logged. Freeing the
  null pointer does nothing; freeing an address that is not in the store is a
  fault.
\<close>

definition real_free :: "addr \<Rightarrow> state \<Rightarrow> fault + state" where
  "real_free p s =
     (if p = NULL then Inr s
      else case region_pages s p of
        None \<Rightarrow> Inl InvalidPointer
      | Some _ \<Rightarrow> Inr (s\<lparr>region_pages := (region_pages s)(p := None),
                        freed := freed s @ [p]\<rparr>))"

text \<open>\<^verbatim>\<open>n--\<close> and \<^verbatim>\<open>n - 1\<close> on an \<^verbatim>\<open>unsigned long\<close>.\<close>

definition ulong_dec :: "nat \<Rightarrow> nat" where
  "ulong_dec n = (if n = 0 then 2 ^ 64 - 1 else n - 1)"

subsection \<open>recycle\_region\<close>

text \<open>
  The loop of lines 232-243: pages are freed from the head of the chain while
  the pool cannot take what remains.
\<close>

function free_loop ::
  "nat \<Rightarrow> nat \<Rightarrow> addr \<Rightarrow> nat \<Rightarrow> state \<Rightarrow> fault + (addr \<times> nat \<times> state)" where
  "free_loop bound pooled page2free n s =
     (if page2free \<noteq> NULL \<and> pooled + n > bound then
        (case load_page s page2free of
           Inl e \<Rightarrow> Inl e
         | Inr pg \<Rightarrow>
             (case real_free page2free s of
                Inl e \<Rightarrow> Inl e
              | Inr s' \<Rightarrow> free_loop bound pooled (nextPage pg) (ulong_dec n) s'))
      else Inr (page2free, n, s))"
  by pat_completeness auto
termination
proof (relation "measure (\<lambda>(bound, pooled, page2free, n, s). card (dom (region_pages s)))")
  show "wf (measure (\<lambda>(bound, pooled, page2free, n, s). card (dom (region_pages s))))"
    by simp
next
  fix bound pooled :: nat and page2free :: addr and n :: nat and s :: state
    and pg :: region_page and s' :: state
  assume a: "page2free \<noteq> NULL \<and> bound < pooled + n"
    and l: "load_page s page2free = Inr pg"
    and f: "real_free page2free s = Inr s'"
  from a l have m: "page2free \<in> dom (region_pages s)"
    by (auto simp: load_page_def split: option.splits)
  from a f m have "region_pages s' = (region_pages s)(page2free := None)"
    by (auto simp: real_free_def split: option.splits)
  then have "dom (region_pages s') = dom (region_pages s) - {page2free}"
    by simp
  moreover have "card (dom (region_pages s) - {page2free}) < card (dom (region_pages s))"
    using m by (intro card_Diff1_less) simp_all
  ultimately have "card (dom (region_pages s')) < card (dom (region_pages s))"
    by (simp only:)
  then show "((bound, pooled, nextPage pg, ulong_dec n, s'), (bound, pooled, page2free, n, s))
      \<in> measure (\<lambda>(bound, pooled, page2free, n, s). card (dom (region_pages s)))"
    by simp
qed

declare free_loop.simps [simp del]

text \<open>
  Lines 189-267: the pool takes the legacy pages if they fit; otherwise pages
  are freed until the rest fits, the rest is linked in front of the pool, and
  the counter is written (twice, lines 256 and 265, on the path that links).
\<close>

definition pool_legacy_pages ::
  "config \<Rightarrow> addr \<Rightarrow> addr \<Rightarrow> nat \<Rightarrow> state \<Rightarrow> fault + state" where
  "pool_legacy_pages cfg region legacy_pages number_of_recycle_region_pages s =
     (let pooled = number_of_pooled_region_pages (descriptor_root s) in
      if pooled + number_of_recycle_region_pages \<le> SCM_REGION_PAGE_FREELIST_SIZE cfg then
        (let first_in_pool = region_page_pool (descriptor_root s) in
         case load_region s region of
           Inl e \<Rightarrow> Inl e
         | Inr reg \<Rightarrow>
             (case store_nextPage (lastPage reg) first_in_pool s of
                Inl e \<Rightarrow> Inl e
              | Inr s1 \<Rightarrow>
                  Inr (s1\<lparr>descriptor_root := (descriptor_root s1)
                         \<lparr>region_page_pool := legacy_pages,
                          number_of_pooled_region_pages :=
                            pooled + number_of_recycle_region_pages\<rparr>\<rparr>)))
      else
        (case free_loop (SCM_REGION_PAGE_FREELIST_SIZE cfg) pooled legacy_pages
                number_of_recycle_region_pages s of
           Inl e \<Rightarrow> Inl e
         | Inr (page2free, n, s1) \<Rightarrow>
             (case
                (if page2free \<noteq> NULL \<and> pooled + n \<le> SCM_REGION_PAGE_FREELIST_SIZE cfg then
                   (let first_in_pool = region_page_pool (descriptor_root s1) in
                    case load_region s1 region of
                      Inl e \<Rightarrow> Inl e
                    | Inr reg \<Rightarrow>
                        if lastPage reg \<noteq> NULL then
                          (case store_nextPage (lastPage reg) first_in_pool s1 of
                             Inl e \<Rightarrow> Inl e
                           | Inr s2 \<Rightarrow>
                               Inr (s2\<lparr>descriptor_root := (descriptor_root s2)
                                      \<lparr>region_page_pool := page2free,
                                       number_of_pooled_region_pages := ulong_dec n\<rparr>\<rparr>))
                        else Inr s1)
                 else Inr s1) of
                Inl e \<Rightarrow> Inl e
              | Inr s3 \<Rightarrow>
                  Inr (s3\<lparr>descriptor_root := (descriptor_root s3)
                         \<lparr>number_of_pooled_region_pages := pooled + n\<rparr>\<rparr>))))"

text \<open>
  Lines 269-299: the region is set to one page, its first, and the cursor to
  that page; a zombie region is then emptied. Taking the address of
  \<^verbatim>\<open>region->lastPage->memory\<close> reads no page.
\<close>

definition reanchor_region :: "config \<Rightarrow> nat \<Rightarrow> region \<Rightarrow> region" where
  "reanchor_region cfg now r =
     (let r1 = r\<lparr>number_of_region_pages := 1\<rparr>;
          r2 = r1\<lparr>lastPage := firstPage r1\<rparr>;
          r3 = r2\<lparr>last_address_in_last_page :=
                 memory_addr cfg (lastPage r2) + of_nat (REGION_PAGE_PAYLOAD_SIZE cfg)\<rparr>;
          r4 = r3\<lparr>next_free_address := memory_addr cfg (lastPage r3)\<rparr>
      in if age r4 \<noteq> now then
           r4\<lparr>number_of_region_pages := 0, firstPage := NULL, lastPage := NULL\<rparr>
         else r4)"

definition reanchor :: "config \<Rightarrow> addr \<Rightarrow> state \<Rightarrow> state" where
  "reanchor cfg region s =
     upd_region region (reanchor_region cfg (current_time (descriptor_root s))) s"

text \<open>Lines 55-322.\<close>

definition recycle_region :: "config \<Rightarrow> addr \<Rightarrow> state \<Rightarrow> fault + state" where
  "recycle_region cfg region s =
     (case load_region s region of
        Inl e \<Rightarrow> Inl e
      | Inr reg \<Rightarrow>
          if age reg = current_time (descriptor_root s) then
            (case load_page s (firstPage reg) of
               Inl e \<Rightarrow> Inl e
             | Inr pg \<Rightarrow>
                 (let legacy_pages = nextPage pg;
                      s1 = memset_page cfg (firstPage reg) s;
                      s2 = upd_region region (\<lambda>r. r\<lparr>last_address_in_last_page :=
                             memory_addr cfg (firstPage reg)
                               + of_nat (REGION_PAGE_PAYLOAD_SIZE cfg) - 1\<rparr>) s1
                  in if legacy_pages = NULL then
                       Inr (upd_region region (\<lambda>r. r\<lparr>dc := 0\<rparr>) s2)
                     else
                       (case pool_legacy_pages cfg region legacy_pages
                               (ulong_dec (number_of_region_pages reg)) s2 of
                          Inl e \<Rightarrow> Inl e
                        | Inr s3 \<Rightarrow> Inr (reanchor cfg region s3))))
          else
            (let legacy_pages = firstPage reg
             in if legacy_pages = NULL then
                  Inr (upd_region region (\<lambda>r. r\<lparr>dc := 0\<rparr>) s)
                else
                  (case pool_legacy_pages cfg region legacy_pages
                          (number_of_region_pages reg) s of
                     Inl e \<Rightarrow> Inl e
                   | Inr s3 \<Rightarrow> Inr (reanchor cfg region s3))))"

subsection \<open>The atomic primitives of arch.h\<close>

text \<open>
  \<^verbatim>\<open>lock; xaddl\<close> is one indivisible step of the processor: it returns
  the value found and leaves the sum, in 32-bit arithmetic. The model of a
  call takes the value of the cell and returns the result with the new value
  of the cell.
\<close>

definition atomic_int_exchange_and_add :: "32 word \<Rightarrow> 32 word \<Rightarrow> 32 word \<times> 32 word" where
  "atomic_int_exchange_and_add atomic val = (atomic, atomic + val)"

definition atomic_int_dec_and_test :: "32 word \<Rightarrow> bool \<times> 32 word" where
  "atomic_int_dec_and_test atomic =
     (let (result, atomic') = atomic_int_exchange_and_add atomic (- 1)
      in (result = 1, atomic'))"

subsection \<open>expire\_reg\_descriptor\_if\_exists\<close>

text \<open>
  \<^verbatim>\<open>get_expired_mem\<close> belongs to the descriptor subsystem and is not among
  the sources. It is a parameter of the model: a function from the state of
  the expired-descriptor list to the pointer it yields (null for none) and
  the state it leaves.
\<close>

definition expire_reg_descriptor_if_exists ::
  "config \<Rightarrow> ('l \<Rightarrow> addr \<times> 'l) \<Rightarrow> 'l \<Rightarrow> state \<Rightarrow> fault + (int \<times> 'l \<times> state)" where
  "expire_reg_descriptor_if_exists cfg get_expired_mem list s =
     (let (expired_region, list') = get_expired_mem list in
      if expired_region \<noteq> NULL then
        (case regions s expired_region of
           None \<Rightarrow> Inl InvalidPointer
         | Some reg \<Rightarrow>
             (let (zero, dc') = atomic_int_dec_and_test (dc reg);
                  s1 = upd_region expired_region (\<lambda>r. r\<lparr>dc := dc'\<rparr>) s
              in if zero then
                   (case recycle_region cfg expired_region s1 of
                      Inl e \<Rightarrow> Inl e
                    | Inr s2 \<Rightarrow> Inr (1, list', s2))
                 else Inr (1, list', s1)))
      else Inr (0, list', s))"

text \<open>
  Modelled from the spec: the expired-descriptor source of the descriptor
  subsystem, which is not among the sources. It yields at most one expired
  region per call; with none available it yields the null pointer and has no
  side effect.
\<close>

fun get_expired_mem :: "addr list \<Rightarrow> addr \<times> addr list" where
  "get_expired_mem [] = (NULL, [])"
| "get_expired_mem (r # rs) = (r, rs)"

subsection \<open>Concurrent releases of one region\<close>

text \<open>
  Each call of \<^verbatim>\<open>atomic_int_dec_and_test\<close> is one locked instruction on
  the cell and a comparison of the value it returned, local to the caller.
  An interleaving of the calls of several threads is therefore the order in
  which their instructions take effect: a list of thread names. The run
  returns what every thread saw, and the cell.
\<close>

fun run_decrements :: "'t list \<Rightarrow> 32 word \<Rightarrow> ('t \<times> bool) list \<times> 32 word" where
  "run_decrements [] atomic = ([], atomic)"
| "run_decrements (t # ts) atomic =
     (let (zero, atomic') = atomic_int_dec_and_test atomic;
          (rs, atomic'') = run_decrements ts atomic'
      in ((t, zero) # rs, atomic''))"

subsection \<open>Page chains and consistent regions\<close>

text \<open>
  \<open>chain h p ps\<close>: following \<^verbatim>\<open>nextPage\<close> from \<open>p\<close> in the page store
  \<open>h\<close> visits exactly the pages \<open>ps\<close>, all in the store, and ends at the
  null pointer.
\<close>

fun chain :: "(addr \<Rightarrow> region_page option) \<Rightarrow> addr \<Rightarrow> addr list \<Rightarrow> bool" where
  "chain h p [] = (p = NULL)"
| "chain h p (a # as) =
     (p = a \<and> a \<noteq> NULL \<and> (case h a of None \<Rightarrow> False | Some pg \<Rightarrow> chain h (nextPage pg) as))"

definition chain_head :: "addr list \<Rightarrow> addr" where
  "chain_head ps = (case ps of [] \<Rightarrow> NULL | a # _ \<Rightarrow> a)"

text \<open>
  The precondition of \<^verbatim>\<open>recycle_region\<close> on the shape of a region: the
  pointer names a region of the store whose page chain is \<open>ps\<close>, whose
  counter is the length of the chain and whose \<^verbatim>\<open>lastPage\<close> is the last
  page of the chain.
\<close>

definition consistent :: "state \<Rightarrow> addr \<Rightarrow> region \<Rightarrow> addr list \<Rightarrow> bool" where
  "consistent s region reg ps =
     (region \<noteq> NULL \<and> regions s region = Some reg \<and>
      chain (region_pages s) (firstPage reg) ps \<and>
      number_of_region_pages reg = length ps \<and>
      lastPage reg = (if ps = [] then NULL else last ps))"

text \<open>The page store after \<^verbatim>\<open>p->nextPage = v\<close>.\<close>

definition set_next ::
  "addr \<Rightarrow> addr \<Rightarrow> (addr \<Rightarrow> region_page option) \<Rightarrow> (addr \<Rightarrow> region_page option)" where
  "set_next p v h = h(p := map_option (\<lambda>pg. pg\<lparr>nextPage := v\<rparr>) (h p))"

text \<open>
  What lines 189-267 leave behind for a chain \<open>ls\<close> of legacy pages, used to
  state the result of a call in closed form: the first
  \<open>pooled + length ls - bound\<close> pages are gone from the store and logged as
  freed, the last page of the rest points to the old pool, and the pool
  starts at the first page of the rest.
\<close>

definition pages_after ::
  "config \<Rightarrow> state \<Rightarrow> addr list \<Rightarrow> (addr \<Rightarrow> region_page option) \<Rightarrow> (addr \<Rightarrow> region_page option)" where
  "pages_after cfg s ls h =
     (let j = number_of_pooled_region_pages (descriptor_root s) + length ls
                - SCM_REGION_PAGE_FREELIST_SIZE cfg
      in (if j < length ls then set_next (last ls) (region_page_pool (descriptor_root s)) else id)
           (h |` (- set (take j ls))))"

definition root_after :: "config \<Rightarrow> state \<Rightarrow> addr list \<Rightarrow> descriptor_root_t" where
  "root_after cfg s ls =
     (let pooled = number_of_pooled_region_pages (descriptor_root s);
          bound = SCM_REGION_PAGE_FREELIST_SIZE cfg;
          j = pooled + length ls - bound
      in (descriptor_root s)
           \<lparr>region_page_pool := (if j < length ls then ls ! j else region_page_pool (descriptor_root s)),
            number_of_pooled_region_pages := min bound (pooled + length ls)\<rparr>)"

definition freed_after :: "config \<Rightarrow> state \<Rightarrow> addr list \<Rightarrow> addr list" where
  "freed_after cfg s ls =
     freed s @ take (number_of_pooled_region_pages (descriptor_root s) + length ls
                       - SCM_REGION_PAGE_FREELIST_SIZE cfg) ls"

subsection \<open>The scenarios of the specification as states\<close>

text \<open>
  Pool capacity 10, a payload of 4 bytes behind a header of 16 bytes. The
  region is at address \<open>0x10\<close>; the current time is 7.
\<close>

definition cfg10 :: config where
  "cfg10 = \<lparr>REGION_PAGE_PAYLOAD_SIZE = 4, SCM_REGION_PAGE_FREELIST_SIZE = 10, memory_offset = 16\<rparr>"

definition used_page :: "addr \<Rightarrow> region_page" where
  "used_page next = \<lparr>nextPage = next, used_memory = 4, memory = [1, 2, 3, 4]\<rparr>"

text \<open>Scenario A: 8 pages pooled, a fresh region of 5 pages.\<close>

definition region_A :: region where
  "region_A = \<lparr>number_of_region_pages = 5, firstPage = 0x1000, lastPage = 0x5000,
     next_free_address = 0x5012, last_address_in_last_page = 0x5013, dc = 0, age = 7\<rparr>"

definition scenario_A :: state where
  "scenario_A =
     \<lparr>regions = [0x10 \<mapsto> region_A],
      region_pages =
        [0x1000 \<mapsto> used_page 0x2000, 0x2000 \<mapsto> used_page 0x3000,
         0x3000 \<mapsto> used_page 0x4000, 0x4000 \<mapsto> used_page 0x5000,
         0x5000 \<mapsto> used_page NULL,
         0xA100 \<mapsto> used_page 0xA200, 0xA200 \<mapsto> used_page 0xA300,
         0xA300 \<mapsto> used_page 0xA400, 0xA400 \<mapsto> used_page 0xA500,
         0xA500 \<mapsto> used_page 0xA600, 0xA600 \<mapsto> used_page 0xA700,
         0xA700 \<mapsto> used_page 0xA800, 0xA800 \<mapsto> used_page NULL],
      descriptor_root = \<lparr>current_time = 7, region_page_pool = 0xA100,
        number_of_pooled_region_pages = 8\<rparr>,
      freed = []\<rparr>"

text \<open>Scenario B: 3 pages pooled, a zombie region of 1 page.\<close>

definition region_B :: region where
  "region_B = \<lparr>number_of_region_pages = 1, firstPage = 0x1000, lastPage = 0x1000,
     next_free_address = 0x1012, last_address_in_last_page = 0x1013, dc = 0, age = 6\<rparr>"

definition scenario_B :: state where
  "scenario_B =
     \<lparr>regions = [0x10 \<mapsto> region_B],
      region_pages =
        [0x1000 \<mapsto> used_page NULL,
         0xA100 \<mapsto> used_page 0xA200, 0xA200 \<mapsto> used_page 0xA300,
         0xA300 \<mapsto> used_page NULL],
      descriptor_root = \<lparr>current_time = 7, region_page_pool = 0xA100,
        number_of_pooled_region_pages = 3\<rparr>,
      freed = []\<rparr>"

text \<open>
  Scenario B while descriptors of the region are still live: the same state
  with \<open>dc = d\<close>.
\<close>

definition scenario_B_live :: "32 word \<Rightarrow> state" where
  "scenario_B_live d = scenario_B\<lparr>regions := [0x10 \<mapsto> region_B\<lparr>dc := d\<rparr>]\<rparr>"

text \<open>Scenario C: a fresh region of 1 page.\<close>

definition region_C :: region where
  "region_C = \<lparr>number_of_region_pages = 1, firstPage = 0x1000, lastPage = 0x1000,
     next_free_address = 0x1012, last_address_in_last_page = 0x1013, dc = 0, age = 7\<rparr>"

definition scenario_C :: state where
  "scenario_C =
     \<lparr>regions = [0x10 \<mapsto> region_C],
      region_pages =
        [0x1000 \<mapsto> used_page NULL,
         0xA100 \<mapsto> used_page 0xA200, 0xA200 \<mapsto> used_page 0xA300,
         0xA300 \<mapsto> used_page NULL],
      descriptor_root = \<lparr>current_time = 7, region_page_pool = 0xA100,
        number_of_pooled_region_pages = 3\<rparr>,
      freed = []\<rparr>"

section \<open>Properties\<close>

subsection \<open>Page chains\<close>

lemma chain_functional: "chain h p ps \<Longrightarrow> chain h p qs \<Longrightarrow> ps = qs"
proof (induction ps arbitrary: p qs)
  case Nil
  then show ?case by (cases qs) auto
next
  case (Cons a as)
  then show ?case by (cases qs) (auto split: option.splits)
qed

lemma chain_suffix:
  "chain h p ps \<Longrightarrow> x \<in> set ps \<Longrightarrow> \<exists>qs. chain h x qs \<and> length qs \<le> length ps"
proof (induction ps arbitrary: p)
  case Nil
  then show ?case by simp
next
  case (Cons a as)
  show ?case
  proof (cases "x = a")
    case True
    with Cons.prems(1) have "chain h x (a # as)" by simp
    then show ?thesis by blast
  next
    case False
    with Cons.prems obtain pg where "h a = Some pg" "chain h (nextPage pg) as" "x \<in> set as"
      by (auto split: option.splits)
    with Cons.IH obtain qs where "chain h x qs" "length qs \<le> length as" by blast
    then show ?thesis by (intro exI [of _ qs]) simp
  qed
qed

lemma chain_head_notin_tail: "chain h p (a # as) \<Longrightarrow> a \<notin> set as"
proof
  assume c: "chain h p (a # as)" and m: "a \<in> set as"
  from c obtain pg where "h a = Some pg" "chain h (nextPage pg) as"
    by (auto split: option.splits)
  with m obtain qs where q: "chain h a qs" "length qs \<le> length as"
    using chain_suffix by blast
  from c have "chain h a (a # as)" by simp
  with q(1) have "qs = a # as" by (rule chain_functional)
  with q(2) show False by simp
qed

lemma chain_distinct: "chain h p ps \<Longrightarrow> distinct ps"
proof (induction ps arbitrary: p)
  case Nil
  then show ?case by simp
next
  case (Cons a as)
  from Cons.prems have "a \<notin> set as" by (rule chain_head_notin_tail)
  moreover from Cons.prems Cons.IH have "distinct as" by (auto split: option.splits)
  ultimately show ?case by simp
qed

lemma chain_upd: "a \<notin> set ps \<Longrightarrow> chain (h(a := v)) p ps = chain h p ps"
  by (induction ps arbitrary: p) (auto split: option.splits)

lemma chain_NULL_notin: "chain h p ps \<Longrightarrow> NULL \<notin> set ps"
  by (induction ps arbitrary: p) (auto split: option.splits)

lemma chain_allocated: "chain h p ps \<Longrightarrow> x \<in> set ps \<Longrightarrow> \<exists>pg. h x = Some pg"
  by (induction ps arbitrary: p) (auto split: option.splits)

lemma chain_head_eq: "chain h p ps \<Longrightarrow> p = chain_head ps"
  by (cases ps) (auto simp: chain_head_def)

lemma restrict_map_all: "m |` UNIV = m"
  by (simp add: restrict_map_def)

lemma free_loop_chain:
  "chain (region_pages s) p ps \<Longrightarrow> pooled \<le> bound \<Longrightarrow>
   free_loop bound pooled p (length ps) s =
     Inr (chain_head (drop (pooled + length ps - bound) ps),
          length ps - (pooled + length ps - bound),
          s\<lparr>region_pages := region_pages s |` (- set (take (pooled + length ps - bound) ps)),
            freed := freed s @ take (pooled + length ps - bound) ps\<rparr>)"
proof (induction ps arbitrary: p s)
  case Nil
  then show ?case by (subst free_loop.simps) (simp add: chain_head_def restrict_map_all)
next
  case (Cons a as)
  from Cons.prems(1) obtain pg where pg: "p = a" "a \<noteq> NULL" "region_pages s a = Some pg"
      "chain (region_pages s) (nextPage pg) as"
    by (auto split: option.splits)
  show ?case
  proof (cases "bound < pooled + Suc (length as)")
    case False
    then have "pooled + length (a # as) - bound = 0" by simp
    with False pg show ?thesis
      by (subst free_loop.simps) (simp add: chain_head_def restrict_map_all)
  next
    case True
    let ?s1 = "s\<lparr>region_pages := (region_pages s)(a := None), freed := freed s @ [a]\<rparr>"
    have na: "a \<notin> set as" using Cons.prems(1) by (rule chain_head_notin_tail)
    then have c1: "chain (region_pages ?s1) (nextPage pg) as"
      using pg(4) by (simp add: chain_upd)
    have j: "pooled + length (a # as) - bound = Suc (pooled + length as - bound)"
      using True by simp
    have step: "free_loop bound pooled p (length (a # as)) s =
        free_loop bound pooled (nextPage pg) (length as) ?s1"
      using True pg
      by (subst free_loop.simps) (simp add: load_page_def real_free_def ulong_dec_def)
    have r: "(\<lambda>b. if b = a then None else region_pages s b)
          |` (- set (take (pooled + length as - bound) as))
        = region_pages s |` (- insert a (set (take (pooled + length as - bound) as)))"
      by (auto simp: restrict_map_def fun_eq_iff)
    show ?thesis
      unfolding step j
      by (simp add: Cons.IH [OF c1 Cons.prems(2)] r)
  qed
qed


subsection \<open>The loop and the pool\<close>

lemma store_nextPage_allocated:
  "p \<noteq> NULL \<Longrightarrow> region_pages s p = Some pg \<Longrightarrow>
   store_nextPage p v s = Inr (s\<lparr>region_pages := set_next p v (region_pages s)\<rparr>)"
  by (simp add: store_nextPage_def load_page_def set_next_def)

lemma chain_last_allocated:
  assumes "chain h p ls" and "ls \<noteq> []" and "j < length ls"
  shows "last ls \<noteq> NULL" and "\<exists>pg. (h |` (- set (take j ls))) (last ls) = Some pg"
proof -
  from assms(2) have m: "last ls \<in> set ls" by simp
  with assms(1) show "last ls \<noteq> NULL" using chain_NULL_notin by metis
  from assms(1) m obtain pg where pg: "h (last ls) = Some pg"
    using chain_allocated by blast
  from assms(1) have d: "distinct ls" by (rule chain_distinct)
  have "ls = take j ls @ drop j ls" by simp
  with d have dj: "set (take j ls) \<inter> set (drop j ls) = {}"
    by (metis distinct_append)
  from assms(3) have "drop j ls \<noteq> []" by simp
  then have "last ls \<in> set (drop j ls)"
    by (metis last_drop last_in_set assms(3))
  with dj have "last ls \<notin> set (take j ls)" by blast
  with pg show "\<exists>pg. (h |` (- set (take j ls))) (last ls) = Some pg"
    by (simp add: restrict_map_def)
qed

lemma chain_head_drop:
  "j < length ls \<Longrightarrow> chain_head (drop j ls) = ls ! j"
  by (simp add: chain_head_def hd_drop_conv_nth [symmetric] hd_def split: list.splits)

lemma pool_legacy_pages_chain:
  assumes reg: "region \<noteq> NULL" "regions s region = Some reg"
    and ch: "chain (region_pages s) legacy ls" and ne: "ls \<noteq> []"
    and lp: "lastPage reg = last ls"
    and bd: "number_of_pooled_region_pages (descriptor_root s) \<le> SCM_REGION_PAGE_FREELIST_SIZE cfg"
  shows "pool_legacy_pages cfg region legacy (length ls) s =
    (let pooled = number_of_pooled_region_pages (descriptor_root s);
         bound = SCM_REGION_PAGE_FREELIST_SIZE cfg;
         j = pooled + length ls - bound
     in Inr (s\<lparr>region_pages :=
                 (if j < length ls then set_next (last ls) (region_page_pool (descriptor_root s))
                  else id) (region_pages s |` (- set (take j ls))),
               descriptor_root := (descriptor_root s)
                 \<lparr>region_page_pool :=
                    (if j < length ls then ls ! j else region_page_pool (descriptor_root s)),
                  number_of_pooled_region_pages := min bound (pooled + length ls)\<rparr>,
               freed := freed s @ take j ls\<rparr>))"
proof (cases "number_of_pooled_region_pages (descriptor_root s) + length ls
                \<le> SCM_REGION_PAGE_FREELIST_SIZE cfg")
  case True
  from ne have "0 < length ls" by simp
  with ch ne have l0: "last ls \<noteq> NULL" by (rule chain_last_allocated(1))
  from ch ne obtain pg where pg: "region_pages s (last ls) = Some pg"
    using chain_allocated [OF ch, of "last ls"] by auto
  from ch ne have hd: "legacy = ls ! 0"
    by (cases ls) auto
  from True ne show ?thesis
    by (simp add: pool_legacy_pages_def Let_def load_region_def reg lp
        store_nextPage_allocated [OF l0 pg] restrict_map_all hd min_def)
next
  case False
  let ?pooled = "number_of_pooled_region_pages (descriptor_root s)"
  let ?bound = "SCM_REGION_PAGE_FREELIST_SIZE cfg"
  let ?j = "?pooled + length ls - ?bound"
  let ?s1 = "s\<lparr>region_pages := region_pages s |` (- set (take ?j ls)),
               freed := freed s @ take ?j ls\<rparr>"
  have fl: "free_loop ?bound ?pooled legacy (length ls) s =
      Inr (chain_head (drop ?j ls), length ls - ?j, ?s1)"
    using ch bd by (rule free_loop_chain)
  have cnt: "?pooled + (length ls - ?j) = ?bound" "min ?bound (?pooled + length ls) = ?bound"
    using False bd by simp_all
  show ?thesis
  proof (cases "?j < length ls")
    case True
    from ch ne True have l0: "last ls \<noteq> NULL" by (rule chain_last_allocated(1))
    from ch ne True obtain pg where
      pg: "region_pages ?s1 (last ls) = Some pg"
      using chain_last_allocated(2) [OF ch ne True] by auto
    have "ls ! ?j \<in> set ls" using True by simp
    with ch have nn: "ls ! ?j \<noteq> NULL" using chain_NULL_notin by metis
    from False True nn cnt l0 show ?thesis
      by (simp add: pool_legacy_pages_def Let_def fl chain_head_drop load_region_def reg lp
          store_nextPage_allocated [OF l0 pg])
  next
    case nt: False
    with bd have jn: "?j = length ls" by simp
    have fl': "free_loop ?bound ?pooled legacy (length ls) s =
        Inr (NULL, 0, s\<lparr>region_pages := region_pages s |` (- set ls), freed := freed s @ ls\<rparr>)"
      using fl unfolding jn by (simp add: chain_head_def)
    from ne have "0 < length ls" by simp
    with nt bd have pb: "?bound = ?pooled" by arith
    show ?thesis
      apply (simp add: pool_legacy_pages_def Let_def fl' False jn cnt(2))
      apply (simp add: pb)
      done
  qed
qed


lemma pool_legacy_pages_result:
  assumes "region \<noteq> NULL" "regions s region = Some reg"
    and "chain (region_pages s) legacy ls" and "ls \<noteq> []"
    and "lastPage reg = last ls"
    and "number_of_pooled_region_pages (descriptor_root s) \<le> SCM_REGION_PAGE_FREELIST_SIZE cfg"
  shows "pool_legacy_pages cfg region legacy (length ls) s =
    Inr (s\<lparr>region_pages := pages_after cfg s ls (region_pages s),
           descriptor_root := root_after cfg s ls,
           freed := freed_after cfg s ls\<rparr>)"
  using pool_legacy_pages_chain [OF assms]
  by (simp add: pages_after_def root_after_def freed_after_def Let_def)

lemma recycle_region_zombie:
  assumes c: "consistent s region reg ps" and ne: "ps \<noteq> []"
    and z: "age reg \<noteq> current_time (descriptor_root s)"
    and bd: "number_of_pooled_region_pages (descriptor_root s) \<le> SCM_REGION_PAGE_FREELIST_SIZE cfg"
  shows "recycle_region cfg region s =
    Inr (s\<lparr>region_pages := pages_after cfg s ps (region_pages s),
           descriptor_root := root_after cfg s ps,
           freed := freed_after cfg s ps,
           regions := (regions s)(region \<mapsto>
             reg\<lparr>last_address_in_last_page :=
                   memory_addr cfg (hd ps) + of_nat (REGION_PAGE_PAYLOAD_SIZE cfg),
                 next_free_address := memory_addr cfg (hd ps),
                 number_of_region_pages := 0, firstPage := NULL, lastPage := NULL\<rparr>)\<rparr>)"
proof -
  from c have r: "region \<noteq> NULL" "regions s region = Some reg"
    and ch: "chain (region_pages s) (firstPage reg) ps"
    and n: "number_of_region_pages reg = length ps"
    by (simp_all add: consistent_def)
  from c ne have lp: "lastPage reg = last ps" by (simp add: consistent_def)
  from ch ne have fp: "firstPage reg = hd ps" "firstPage reg \<noteq> NULL"
    by (cases ps; simp)+
  have ct: "current_time (root_after cfg s ps) = current_time (descriptor_root s)"
    by (simp add: root_after_def Let_def)
  from ch fp have ch': "chain (region_pages s) (hd ps) ps" by simp
  show ?thesis
    using z fp
    by (simp add: recycle_region_def load_region_def r n Let_def
        pool_legacy_pages_result [OF r ch' ne lp bd]
        reanchor_def reanchor_region_def upd_region_def ct)
qed

lemma recycle_region_fresh:
  assumes c: "consistent s region reg (f # ls)" and ne: "ls \<noteq> []"
    and fr: "age reg = current_time (descriptor_root s)"
    and bd: "number_of_pooled_region_pages (descriptor_root s) \<le> SCM_REGION_PAGE_FREELIST_SIZE cfg"
  shows "recycle_region cfg region s =
    Inr (s\<lparr>region_pages := pages_after cfg s ls ((region_pages s)(f \<mapsto> zero_page cfg)),
           descriptor_root := root_after cfg s ls,
           freed := freed_after cfg s ls,
           regions := (regions s)(region \<mapsto>
             reg\<lparr>number_of_region_pages := 1, lastPage := f,
                 last_address_in_last_page :=
                   memory_addr cfg f + of_nat (REGION_PAGE_PAYLOAD_SIZE cfg),
                 next_free_address := memory_addr cfg f\<rparr>)\<rparr>)"
proof -
  from c have r: "region \<noteq> NULL" "regions s region = Some reg"
    and ch: "chain (region_pages s) (firstPage reg) (f # ls)"
    and n: "number_of_region_pages reg = Suc (length ls)"
    by (simp_all add: consistent_def)
  from c ne have lp: "lastPage reg = last ls" by (simp add: consistent_def)
  from ch obtain pg where fp: "firstPage reg = f" "f \<noteq> NULL" "region_pages s f = Some pg"
    and ch1: "chain (region_pages s) (nextPage pg) ls"
    by (auto split: option.splits)
  from ch have nf: "f \<notin> set ls" by (rule chain_head_notin_tail)
  from ch1 ne have lg: "nextPage pg \<noteq> NULL" by (cases ls) auto
  let ?reg2 = "reg\<lparr>last_address_in_last_page :=
      memory_addr cfg f + of_nat (REGION_PAGE_PAYLOAD_SIZE cfg) - 1\<rparr>"
  let ?s2 = "upd_region region (\<lambda>r. r\<lparr>last_address_in_last_page :=
      memory_addr cfg f + of_nat (REGION_PAGE_PAYLOAD_SIZE cfg) - 1\<rparr>) (memset_page cfg f s)"
  have r2: "regions ?s2 region = Some ?reg2"
    by (simp add: upd_region_def memset_page_def r)
  have p2: "region_pages ?s2 = (region_pages s)(f \<mapsto> zero_page cfg)"
    by (simp add: upd_region_def memset_page_def)
  have d2: "descriptor_root ?s2 = descriptor_root s" "freed ?s2 = freed s"
    by (simp_all add: upd_region_def memset_page_def)
  have ch2: "chain (region_pages ?s2) (nextPage pg) ls"
    unfolding p2 using ch1 nf by (simp add: chain_upd)
  have lp2: "lastPage ?reg2 = last ls" using lp by simp
  have bd2: "number_of_pooled_region_pages (descriptor_root ?s2) \<le> SCM_REGION_PAGE_FREELIST_SIZE cfg"
    using bd by (simp add: d2)
  have pl: "pool_legacy_pages cfg region (nextPage pg) (length ls) ?s2 =
      Inr (?s2\<lparr>region_pages := pages_after cfg ?s2 ls (region_pages ?s2),
             descriptor_root := root_after cfg ?s2 ls,
             freed := freed_after cfg ?s2 ls\<rparr>)"
    by (rule pool_legacy_pages_result [OF r(1) r2 ch2 ne lp2 bd2])
  have same: "pages_after cfg ?s2 ls = pages_after cfg s ls"
      "root_after cfg ?s2 ls = root_after cfg s ls"
      "freed_after cfg ?s2 ls = freed_after cfg s ls"
    by (simp_all add: pages_after_def root_after_def freed_after_def Let_def
        upd_region_def memset_page_def fun_eq_iff)
  have ct: "current_time (root_after cfg s ls) = current_time (descriptor_root s)"
    by (simp add: root_after_def Let_def)
  have rr: "recycle_region cfg region s =
      Inr (reanchor cfg region (?s2\<lparr>region_pages := pages_after cfg s ls ((region_pages s)(f \<mapsto> zero_page cfg)),
             descriptor_root := root_after cfg s ls,
             freed := freed_after cfg s ls\<rparr>))"
    using lg pl unfolding same p2
    by (simp add: recycle_region_def load_region_def load_page_def r fp fr Let_def n ulong_dec_def)
  show ?thesis
    unfolding rr
    by (simp add: reanchor_def reanchor_region_def upd_region_def memset_page_def r fp fr ct Let_def)
qed

lemma recycle_region_fresh_single:
  assumes c: "consistent s region reg [f]"
    and fr: "age reg = current_time (descriptor_root s)"
  shows "recycle_region cfg region s =
    Inr (s\<lparr>regions := (regions s)(region \<mapsto>
             reg\<lparr>last_address_in_last_page :=
                   memory_addr cfg f + of_nat (REGION_PAGE_PAYLOAD_SIZE cfg) - 1,
                 dc := 0\<rparr>),
           region_pages := (region_pages s)(f \<mapsto> zero_page cfg)\<rparr>)"
  using assms
  by (auto simp: consistent_def recycle_region_def load_region_def load_page_def Let_def
      upd_region_def memset_page_def split: option.splits)

lemma recycle_region_zombie_empty:
  assumes c: "consistent s region reg []"
    and z: "age reg \<noteq> current_time (descriptor_root s)"
  shows "recycle_region cfg region s =
    Inr (s\<lparr>regions := (regions s)(region \<mapsto> reg\<lparr>dc := 0\<rparr>)\<rparr>)"
  using assms
  by (auto simp: consistent_def recycle_region_def load_region_def Let_def upd_region_def)


lemma chain_restrict: "set ps \<inter> F = {} \<Longrightarrow> chain (h |` (- F)) p ps = chain h p ps"
  by (induction ps arbitrary: p) (auto simp: restrict_map_def split: option.splits)

lemma chain_drop:
  "chain h p ls \<Longrightarrow> j < length ls \<Longrightarrow> chain h (ls ! j) (drop j ls)"
proof (induction ls arbitrary: p j)
  case Nil
  then show ?case by simp
next
  case (Cons a as)
  show ?case
  proof (cases j)
    case 0
    with Cons.prems show ?thesis by simp
  next
    case (Suc i)
    with Cons.prems Cons.IH [of _ i] show ?thesis
      by (auto split: option.splits)
  qed
qed

lemma set_next_same: "h a = Some pg \<Longrightarrow> set_next a v h a = Some (pg\<lparr>nextPage := v\<rparr>)"
  by (simp add: set_next_def)

lemma set_next_other: "b \<noteq> a \<Longrightarrow> set_next a v h b = h b"
  by (simp add: set_next_def)

lemma chain_set_next_other:
  "a \<notin> set ps \<Longrightarrow> chain (set_next a v h) p ps = chain h p ps"
  by (simp add: set_next_def chain_upd)

lemma chain_append_set_next:
  "chain h p xs \<Longrightarrow> xs \<noteq> [] \<Longrightarrow> chain h q qs \<Longrightarrow> set qs \<inter> set xs = {} \<Longrightarrow>
   chain (set_next (last xs) q h) p (xs @ qs)"
proof (induction xs arbitrary: p)
  case Nil
  then show ?case by simp
next
  case (Cons x xs)
  from Cons.prems(1) obtain pg where pg: "p = x" "x \<noteq> NULL" "h x = Some pg"
      "chain h (nextPage pg) xs"
    by (auto split: option.splits)
  from Cons.prems(1) have nx: "x \<notin> set xs" by (rule chain_head_notin_tail)
  show ?case
  proof (cases "xs = []")
    case True
    from Cons.prems(4) have "x \<notin> set qs" by auto
    then have "chain (set_next x q h) q qs = chain h q qs"
      by (rule chain_set_next_other)
    with True pg Cons.prems(3) show ?thesis
      by (simp add: set_next_same)
  next
    case False
    then have "last xs \<in> set xs" by simp
    with nx have ne: "x \<noteq> last xs" by auto
    from Cons.prems(4) have "set qs \<inter> set xs = {}" by auto
    with Cons.IH [OF pg(4) False Cons.prems(3)]
    have "chain (set_next (last xs) q h) (nextPage pg) (xs @ qs)" by simp
    with False pg ne show ?thesis
      by (simp add: set_next_other)
  qed
qed

lemma pool_chain_after:
  assumes ch: "chain h p ls" and pc: "chain h pool qs" and dj: "set qs \<inter> set ls = {}"
  shows "chain ((if j < length ls then set_next (last ls) pool else id) (h |` (- set (take j ls))))
           (if j < length ls then ls ! j else pool) (drop j ls @ qs)"
proof (cases "j < length ls")
  case True
  let ?h2 = "h |` (- set (take j ls))"
  from ch have "distinct ls" by (rule chain_distinct)
  then have "distinct (take j ls @ drop j ls)" by simp
  then have d1: "set (drop j ls) \<inter> set (take j ls) = {}"
    by (simp only: distinct_append) blast
  have "set (take j ls) \<subseteq> set ls" by (rule set_take_subset)
  with dj have d2: "set qs \<inter> set (take j ls) = {}" by blast
  have "set (drop j ls) \<subseteq> set ls" by (rule set_drop_subset)
  with dj have d3: "set qs \<inter> set (drop j ls) = {}" by blast
  from ch True have "chain h (ls ! j) (drop j ls)" by (rule chain_drop)
  with d1 have c1: "chain ?h2 (ls ! j) (drop j ls)" by (simp add: chain_restrict)
  from pc d2 have c2: "chain ?h2 pool qs" by (simp add: chain_restrict)
  from True have ne: "drop j ls \<noteq> []" by simp
  from True have "last (drop j ls) = last ls" by simp
  with chain_append_set_next [OF c1 ne c2 d3] True show ?thesis by simp
next
  case False
  with pc dj show ?thesis by (simp add: chain_restrict)
qed

lemma dom_set_next: "dom (set_next p v h) = dom h"
  by (auto simp: set_next_def split: if_splits)

lemma dom_pages_after:
  "dom (pages_after cfg s ls h) =
     dom h - set (take (number_of_pooled_region_pages (descriptor_root s) + length ls
                          - SCM_REGION_PAGE_FREELIST_SIZE cfg) ls)"
  by (auto simp: pages_after_def Let_def dom_set_next restrict_map_def split: if_splits)

lemma pages_after_other:
  assumes n: "p \<notin> set ls"
  shows "pages_after cfg s ls h p = h p"
proof -
  let ?J = "number_of_pooled_region_pages (descriptor_root s) + length ls
                - SCM_REGION_PAGE_FREELIST_SIZE cfg"
  have "set (take ?J ls) \<subseteq> set ls" by (rule set_take_subset)
  with n have "p \<in> - set (take ?J ls)" by blast
  then have r: "(h |` (- set (take ?J ls))) p = h p" by (rule restrict_in)
  show ?thesis
  proof (cases "?J < length ls")
    case True
    then have "ls \<noteq> []" by auto
    then have "last ls \<in> set ls" by simp
    with n have "p \<noteq> last ls" by auto
    with True r show ?thesis
      by (simp add: pages_after_def Let_def set_next_other)
  next
    case False
    with r show ?thesis by (simp add: pages_after_def Let_def)
  qed
qed

lemma word_pred_neq: "(x :: 'a::len word) \<noteq> x - 1"
  by simp

lemma recycle_region_fresh_reanchored:
  assumes c: "consistent s region reg (f # ls)" and ne: "ls \<noteq> []"
    and fr: "age reg = current_time (descriptor_root s)"
    and bd: "number_of_pooled_region_pages (descriptor_root s) \<le> SCM_REGION_PAGE_FREELIST_SIZE cfg"
  shows "\<exists>s' reg'. recycle_region cfg region s = Inr s' \<and> regions s' region = Some reg' \<and>
           number_of_region_pages reg' = 1 \<and> firstPage reg' = f \<and> lastPage reg' = f \<and>
           dc reg' = dc reg \<and>
           region_pages s' f = Some (zero_page cfg) \<and>
           next_free_address reg' = memory_addr cfg f \<and>
           last_address_in_last_page reg' =
             memory_addr cfg f + of_nat (REGION_PAGE_PAYLOAD_SIZE cfg)"
proof -
  from c have "chain (region_pages s) (firstPage reg) (f # ls)" and ff: "firstPage reg = f"
    by (auto simp: consistent_def)
  then have "f \<notin> set ls" using chain_head_notin_tail by blast
  then have "pages_after cfg s ls ((region_pages s)(f \<mapsto> zero_page cfg)) f = Some (zero_page cfg)"
    by (simp add: pages_after_other)
  then show ?thesis
    unfolding recycle_region_fresh [OF c ne fr bd] using ff by simp
qed

lemma consistent_upd_dc:
  "consistent s r reg ps \<Longrightarrow>
   consistent (upd_region r (\<lambda>x. x\<lparr>dc := v\<rparr>) s) r (reg\<lparr>dc := v\<rparr>) ps"
  by (simp add: consistent_def upd_region_def)

lemma recycle_region_returns:
  assumes c: "consistent s region reg ps"
    and bd: "number_of_pooled_region_pages (descriptor_root s) \<le> SCM_REGION_PAGE_FREELIST_SIZE cfg"
    and ne: "ps \<noteq> [] \<or> age reg \<noteq> current_time (descriptor_root s)"
  shows "\<exists>s'. recycle_region cfg region s = Inr s'"
proof (cases "age reg = current_time (descriptor_root s)")
  case False
  show ?thesis
  proof (cases "ps = []")
    case True
    with recycle_region_zombie_empty [OF c [unfolded True] False] show ?thesis by simp
  next
    case n: False
    with recycle_region_zombie [OF c n False bd] show ?thesis by simp
  qed
next
  case True
  with ne obtain f ls where ps: "ps = f # ls" by (cases ps) auto
  show ?thesis
  proof (cases "ls = []")
    case e: True
    with recycle_region_fresh_single [OF c [unfolded ps e] True] show ?thesis by simp
  next
    case n: False
    with recycle_region_fresh [OF c [unfolded ps] n True bd] show ?thesis by simp
  qed
qed

lemma atomic_int_dec_and_test_eq: "atomic_int_dec_and_test d = (d = 1, d - 1)"
  by (simp add: atomic_int_dec_and_test_def atomic_int_exchange_and_add_def)

lemma run_decrements_last:
  "unat d = length sched \<Longrightarrow> sched \<noteq> [] \<Longrightarrow>
   filter snd (fst (run_decrements sched d)) = [(last sched, True)] \<and>
   snd (run_decrements sched d) = 0 \<and>
   map fst (fst (run_decrements sched d)) = sched"
proof (induction sched arbitrary: d)
  case Nil
  then show ?case by simp
next
  case (Cons t ts)
  show ?case
  proof (cases "ts = []")
    case True
    with Cons.prems have "unat d = 1" by simp
    then have "d = 1" by (metis unat_1 word_unat_eq_iff)
    with True show ?thesis
      by (simp add: atomic_int_dec_and_test_eq)
  next
    case False
    with Cons.prems have u: "unat d = Suc (length ts)" "2 \<le> unat d"
      by (simp_all add: Suc_le_eq)
    then have n1: "d \<noteq> 1" by auto
    from u have "d \<noteq> 0" by auto
    then have "unat (d - 1) = unat d - 1" by (rule unat_minus_one)
    with u have "unat (d - 1) = length ts" by simp
    from Cons.IH [OF this False] n1 False show ?thesis
      by (auto simp: atomic_int_dec_and_test_eq split: prod.splits)
  qed
qed

section \<open>The claims\<close>

text \<open>
  C1. For every region with \<open>dc = 0\<close> and a consistent page chain, whose
  recyclable set has \<open>n \<ge> 1\<close> pages (all pages but the first if the region
  is fresh, all pages if it is a zombie), and with at most
  \<open>SCM_REGION_PAGE_FREELIST_SIZE\<close> pages pooled beforehand,
  \<open>recycle_region\<close> returns and the pooled count is then the minimum of the
  bound and the count before plus \<open>n\<close>. This covers the branch where the
  pages fit and the branch where they do not: the two writes of the counter
  on the second branch leave this value.
\<close>

theorem recycle_region_pooled_count:
  assumes c: "consistent s region reg ps" and "dc reg = 0"
    and bd: "number_of_pooled_region_pages (descriptor_root s) \<le> SCM_REGION_PAGE_FREELIST_SIZE cfg"
    and n: "n = (if age reg = current_time (descriptor_root s) then length ps - 1 else length ps)"
    and n1: "1 \<le> n"
  shows "\<exists>s'. recycle_region cfg region s = Inr s' \<and>
           number_of_pooled_region_pages (descriptor_root s') =
             min (SCM_REGION_PAGE_FREELIST_SIZE cfg)
                 (number_of_pooled_region_pages (descriptor_root s) + n)"
proof (cases "age reg = current_time (descriptor_root s)")
  case True
  with n n1 obtain f ls where ps: "ps = f # ls"
    by (cases ps) auto
  with True n n1 have ls: "ls \<noteq> []" "n = length ls" by auto
  then show ?thesis
    using recycle_region_fresh [OF c [unfolded ps] ls(1) True bd]
    by (simp add: root_after_def Let_def)
next
  case False
  with n n1 have ne: "ps \<noteq> []" and "n = length ps" by auto
  then show ?thesis
    using recycle_region_zombie [OF c ne False bd]
    by (simp add: root_after_def Let_def)
qed

text \<open>Scenario A of the specification: 8 pooled, 4 recyclable, bound 10.\<close>

theorem recycle_region_pooled_count_witness:
  "consistent scenario_A 0x10 region_A [0x1000, 0x2000, 0x3000, 0x4000, 0x5000] \<and>
   dc region_A = 0 \<and>
   number_of_pooled_region_pages (descriptor_root scenario_A) \<le> SCM_REGION_PAGE_FREELIST_SIZE cfg10 \<and>
   age region_A = current_time (descriptor_root scenario_A) \<and>
   (\<exists>s'. recycle_region cfg10 0x10 scenario_A = Inr s' \<and>
         number_of_pooled_region_pages (descriptor_root s') = 10)"
proof -
  have c: "consistent scenario_A 0x10 region_A [0x1000, 0x2000, 0x3000, 0x4000, 0x5000]"
    by (simp add: consistent_def scenario_A_def region_A_def used_page_def)
  have d: "dc region_A = 0" by (simp add: region_A_def)
  have b: "number_of_pooled_region_pages (descriptor_root scenario_A)
      \<le> SCM_REGION_PAGE_FREELIST_SIZE cfg10"
    by (simp add: scenario_A_def cfg10_def)
  have a: "age region_A = current_time (descriptor_root scenario_A)"
    by (simp add: scenario_A_def region_A_def)
  have n: "(4::nat) = (if age region_A = current_time (descriptor_root scenario_A)
      then length [0x1000, 0x2000, 0x3000, 0x4000, 0x5000 :: addr] - 1
      else length [0x1000, 0x2000, 0x3000, 0x4000, 0x5000 :: addr])"
    by (simp add: a)
  have v: "min (SCM_REGION_PAGE_FREELIST_SIZE cfg10)
      (number_of_pooled_region_pages (descriptor_root scenario_A) + 4) = 10"
    by (simp add: scenario_A_def cfg10_def)
  from recycle_region_pooled_count [OF c d b n] c d b a show ?thesis
    unfolding v by simp
qed

text \<open>
  C2. A fresh region with \<open>k > 1\<close> pages and \<open>dc = 0\<close> is left with
  exactly one page, its first, whose link is empty, and the cursor is reset to
  the bounds of that page. In scenario A (5 pages) the call leaves one page,
  last page equal to first page, an empty link and \<open>next_free_address\<close> at
  the payload; but \<open>last_address_in_last_page\<close> is \<open>0x1014\<close>, one past the
  usable bound \<open>0x1013\<close> of the page (payload address plus payload size
  minus 1). Lemma \<open>recycle_region_fresh_reanchored\<close> gives the same values
  for every such region.
\<close>

theorem recycle_region_scenario_A_cursor:
  "\<exists>s' reg'. recycle_region cfg10 0x10 scenario_A = Inr s' \<and> regions s' 0x10 = Some reg' \<and>
     number_of_region_pages reg' = 1 \<and> firstPage reg' = 0x1000 \<and> lastPage reg' = firstPage reg' \<and>
     (\<exists>pg. region_pages s' 0x1000 = Some pg \<and> nextPage pg = NULL) \<and>
     next_free_address reg' = memory_addr cfg10 0x1000 \<and>
     memory_addr cfg10 0x1000 + of_nat (REGION_PAGE_PAYLOAD_SIZE cfg10) - 1 = 0x1013 \<and>
     last_address_in_last_page reg' = 0x1014"
proof -
  have c: "consistent scenario_A 0x10 region_A [0x1000, 0x2000, 0x3000, 0x4000, 0x5000]"
    by (simp add: consistent_def scenario_A_def region_A_def used_page_def)
  have ne: "[0x2000, 0x3000, 0x4000, 0x5000 :: addr] \<noteq> []" by simp
  have b: "number_of_pooled_region_pages (descriptor_root scenario_A)
      \<le> SCM_REGION_PAGE_FREELIST_SIZE cfg10"
    by (simp add: scenario_A_def cfg10_def)
  have a: "age region_A = current_time (descriptor_root scenario_A)"
    by (simp add: scenario_A_def region_A_def)
  have v: "memory_addr cfg10 0x1000 + of_nat (REGION_PAGE_PAYLOAD_SIZE cfg10) = 0x1014"
    "memory_addr cfg10 0x1000 + of_nat (REGION_PAGE_PAYLOAD_SIZE cfg10) - 1 = 0x1013"
    by (simp_all add: memory_addr_def cfg10_def)
  from recycle_region_fresh_reanchored [OF c ne a b] show ?thesis
    unfolding v by (auto simp: zero_page_def)
qed

text \<open>
  C3. For every zombie region with \<open>k \<ge> 1\<close> pages and \<open>dc = 0\<close>,
  \<open>recycle_region\<close> returns with the region empty (counter 0, first and
  last page null), and the \<open>k\<close> pages are split by the capacity rule with
  a recyclable set of size \<open>k\<close>: the pooled count becomes
  \<open>min bound (pooled + k)\<close>, the first \<open>pooled + k - bound\<close> pages are freed,
  and the remaining pages are linked in front of the pool.
\<close>

theorem recycle_region_zombie_emptied:
  assumes c: "consistent s region reg ps" and dc: "dc reg = 0"
    and z: "age reg \<noteq> current_time (descriptor_root s)"
    and ne: "ps \<noteq> []"
    and bd: "number_of_pooled_region_pages (descriptor_root s) \<le> SCM_REGION_PAGE_FREELIST_SIZE cfg"
    and j: "j = number_of_pooled_region_pages (descriptor_root s) + length ps
                - SCM_REGION_PAGE_FREELIST_SIZE cfg"
  shows "\<exists>s' reg'. recycle_region cfg region s = Inr s' \<and> regions s' region = Some reg' \<and>
           number_of_region_pages reg' = 0 \<and> firstPage reg' = NULL \<and> lastPage reg' = NULL \<and>
           dc reg' = 0 \<and>
           number_of_pooled_region_pages (descriptor_root s') =
             min (SCM_REGION_PAGE_FREELIST_SIZE cfg)
                 (number_of_pooled_region_pages (descriptor_root s) + length ps) \<and>
           freed s' = freed s @ take j ps \<and>
           dom (region_pages s') = dom (region_pages s) - set (take j ps) \<and>
           (\<forall>qs. chain (region_pages s) (region_page_pool (descriptor_root s)) qs \<and>
                 set qs \<inter> set ps = {} \<longrightarrow>
                 chain (region_pages s') (region_page_pool (descriptor_root s')) (drop j ps @ qs))"
proof -
  from c have ch: "chain (region_pages s) (firstPage reg) ps"
    by (simp add: consistent_def)
  let ?J = "number_of_pooled_region_pages (descriptor_root s) + length ps
                - SCM_REGION_PAGE_FREELIST_SIZE cfg"
  have pool: "chain (pages_after cfg s ps (region_pages s))
        (region_page_pool (root_after cfg s ps)) (drop ?J ps @ qs)"
    if "chain (region_pages s) (region_page_pool (descriptor_root s)) qs"
      and "set qs \<inter> set ps = {}" for qs
    using pool_chain_after [OF ch that, of ?J]
    by (simp add: pages_after_def root_after_def Let_def)
  have r: "recycle_region cfg region s =
    Inr (s\<lparr>region_pages := pages_after cfg s ps (region_pages s),
           descriptor_root := root_after cfg s ps,
           freed := freed_after cfg s ps,
           regions := (regions s)(region \<mapsto>
             reg\<lparr>last_address_in_last_page :=
                   memory_addr cfg (hd ps) + of_nat (REGION_PAGE_PAYLOAD_SIZE cfg),
                 next_free_address := memory_addr cfg (hd ps),
                 number_of_region_pages := 0, firstPage := NULL, lastPage := NULL\<rparr>)\<rparr>)"
    by (rule recycle_region_zombie [OF c ne z bd])
  have cnt: "number_of_pooled_region_pages (root_after cfg s ps) =
      min (SCM_REGION_PAGE_FREELIST_SIZE cfg)
          (number_of_pooled_region_pages (descriptor_root s) + length ps)"
    by (simp add: root_after_def Let_def)
  show ?thesis
    unfolding j r
    using dc pool cnt
    by (simp add: freed_after_def dom_pages_after)
qed

text \<open>
  Scenario B: 3 pooled, a zombie region of 1 page; the page becomes the head of the pool.
\<close>

theorem recycle_region_zombie_emptied_witness:
  "consistent scenario_B 0x10 region_B [0x1000] \<and>
   dc region_B = 0 \<and>
   age region_B \<noteq> current_time (descriptor_root scenario_B) \<and>
   number_of_pooled_region_pages (descriptor_root scenario_B) \<le> SCM_REGION_PAGE_FREELIST_SIZE cfg10 \<and>
   chain (region_pages scenario_B) (region_page_pool (descriptor_root scenario_B))
     [0xA100, 0xA200, 0xA300] \<and>
   (\<exists>s' reg'. recycle_region cfg10 0x10 scenario_B = Inr s' \<and> regions s' 0x10 = Some reg' \<and>
      number_of_region_pages reg' = 0 \<and> firstPage reg' = NULL \<and> lastPage reg' = NULL \<and>
      dc reg' = 0 \<and>
      number_of_pooled_region_pages (descriptor_root s') = 4 \<and>
      freed s' = [] \<and>
      chain (region_pages s') (region_page_pool (descriptor_root s'))
        [0x1000, 0xA100, 0xA200, 0xA300])"
proof -
  have c: "consistent scenario_B 0x10 region_B [0x1000]"
    by (simp add: consistent_def scenario_B_def region_B_def used_page_def)
  have d: "dc region_B = 0" by (simp add: region_B_def)
  have z: "age region_B \<noteq> current_time (descriptor_root scenario_B)"
    by (simp add: scenario_B_def region_B_def)
  have ne: "[0x1000 :: addr] \<noteq> []" by simp
  have b: "number_of_pooled_region_pages (descriptor_root scenario_B)
      \<le> SCM_REGION_PAGE_FREELIST_SIZE cfg10"
    by (simp add: scenario_B_def cfg10_def)
  have j: "(0::nat) = number_of_pooled_region_pages (descriptor_root scenario_B)
      + length [0x1000 :: addr] - SCM_REGION_PAGE_FREELIST_SIZE cfg10"
    by (simp add: scenario_B_def cfg10_def)
  have p: "chain (region_pages scenario_B) (region_page_pool (descriptor_root scenario_B))
      [0xA100, 0xA200, 0xA300]"
    by (simp add: scenario_B_def used_page_def)
  have q: "set [0xA100, 0xA200, 0xA300 :: addr] \<inter> set [0x1000] = {}" by simp
  have f: "freed scenario_B = []" "number_of_pooled_region_pages (descriptor_root scenario_B) = 3"
    "SCM_REGION_PAGE_FREELIST_SIZE cfg10 = 10"
    by (simp_all add: scenario_B_def cfg10_def)
  from recycle_region_zombie_emptied [OF c d z ne b j]
  obtain s' reg' where r: "recycle_region cfg10 0x10 scenario_B = Inr s'"
      "regions s' 0x10 = Some reg'"
      "number_of_region_pages reg' = 0" "firstPage reg' = NULL" "lastPage reg' = NULL"
      "dc reg' = 0"
      "number_of_pooled_region_pages (descriptor_root s') =
         min (SCM_REGION_PAGE_FREELIST_SIZE cfg10)
           (number_of_pooled_region_pages (descriptor_root scenario_B) + length [0x1000 :: addr])"
      "freed s' = freed scenario_B @ take 0 [0x1000]"
      and all: "\<forall>qs. chain (region_pages scenario_B) (region_page_pool (descriptor_root scenario_B)) qs \<and>
                 set qs \<inter> set [0x1000] = {} \<longrightarrow>
                 chain (region_pages s') (region_page_pool (descriptor_root s')) (drop 0 [0x1000] @ qs)"
    by blast
  from all p q have "chain (region_pages s') (region_page_pool (descriptor_root s'))
      (drop 0 [0x1000] @ [0xA100, 0xA200, 0xA300])"
    by blast
  with r c d z b p show ?thesis
    unfolding f by simp
qed

text \<open>
  C4. For every region that meets the precondition of \<open>recycle_region\<close>
  (\<open>dc = 0\<close>, a consistent chain whose length is the counter): if the
  pooled count is at most \<open>SCM_REGION_PAGE_FREELIST_SIZE\<close> before the call,
  it is so in every state the call returns. The call does return, unless the
  region is fresh and has no page at all (the first page is then dereferenced).
\<close>

theorem recycle_region_pool_bound:
  assumes c: "consistent s region reg ps" and "dc reg = 0"
    and bd: "number_of_pooled_region_pages (descriptor_root s) \<le> SCM_REGION_PAGE_FREELIST_SIZE cfg"
  shows "(\<forall>s'. recycle_region cfg region s = Inr s' \<longrightarrow>
            number_of_pooled_region_pages (descriptor_root s') \<le> SCM_REGION_PAGE_FREELIST_SIZE cfg) \<and>
         (ps \<noteq> [] \<or> age reg \<noteq> current_time (descriptor_root s) \<longrightarrow>
            (\<exists>s'. recycle_region cfg region s = Inr s'))"
proof (cases "age reg = current_time (descriptor_root s)")
  case False
  show ?thesis
  proof (cases "ps = []")
    case True
    with recycle_region_zombie_empty [OF c [unfolded True] False] bd show ?thesis by simp
  next
    case ne: False
    with recycle_region_zombie [OF c ne False bd] show ?thesis
      by (simp add: root_after_def Let_def)
  qed
next
  case True
  show ?thesis
  proof (cases ps)
    case Nil
    with c have "region \<noteq> NULL" "regions s region = Some reg" "firstPage reg = NULL"
      by (simp_all add: consistent_def)
    with True Nil show ?thesis
      by (simp add: recycle_region_def load_region_def load_page_def)
  next
    case (Cons f ls)
    show ?thesis
    proof (cases "ls = []")
      case e: True
      with recycle_region_fresh_single [OF c [unfolded Cons e] True] bd Cons show ?thesis
        by simp
    next
      case ne: False
      with recycle_region_fresh [OF c [unfolded Cons] ne True bd] Cons show ?thesis
        by (simp add: root_after_def Let_def)
    qed
  qed
qed

text \<open>
  Scenario A: the call returns with the count within the bound.
\<close>

theorem recycle_region_pool_bound_witness:
  "consistent scenario_A 0x10 region_A [0x1000, 0x2000, 0x3000, 0x4000, 0x5000] \<and>
   dc region_A = 0 \<and>
   number_of_pooled_region_pages (descriptor_root scenario_A) \<le> SCM_REGION_PAGE_FREELIST_SIZE cfg10 \<and>
   (\<exists>s'. recycle_region cfg10 0x10 scenario_A = Inr s' \<and>
         number_of_pooled_region_pages (descriptor_root s') \<le> SCM_REGION_PAGE_FREELIST_SIZE cfg10)"
proof -
  have c: "consistent scenario_A 0x10 region_A [0x1000, 0x2000, 0x3000, 0x4000, 0x5000]"
    by (simp add: consistent_def scenario_A_def region_A_def used_page_def)
  have d: "dc region_A = 0" by (simp add: region_A_def)
  have b: "number_of_pooled_region_pages (descriptor_root scenario_A)
      \<le> SCM_REGION_PAGE_FREELIST_SIZE cfg10"
    by (simp add: scenario_A_def cfg10_def)
  from recycle_region_pool_bound [OF c d b] c d b show ?thesis
    by auto
qed

text \<open>
  C5. For every region with \<open>dc = 0\<close>, a consistent chain, at least one
  recyclable page and a pooled count within the bound,
  the pages that \<open>recycle_region\<close> hands to \<^verbatim>\<open>__real_free\<close> are, in the order
  of the calls, the first \<open>j\<close> pages of the recyclable chain, where \<open>j\<close>
  is \<open>max 0 (pooled + n - bound)\<close>; exactly these pages leave the store.
\<close>

theorem recycle_region_freed_pages:
  assumes c: "consistent s region reg ps" and "dc reg = 0"
    and bd: "number_of_pooled_region_pages (descriptor_root s) \<le> SCM_REGION_PAGE_FREELIST_SIZE cfg"
    and l: "legacy = (if age reg = current_time (descriptor_root s) then tl ps else ps)"
    and n1: "1 \<le> length legacy"
    and j: "j = number_of_pooled_region_pages (descriptor_root s) + length legacy
                - SCM_REGION_PAGE_FREELIST_SIZE cfg"
  shows "\<exists>s'. recycle_region cfg region s = Inr s' \<and>
           freed s' = freed s @ take j legacy \<and>
           int (length (freed s')) - int (length (freed s)) =
             max 0 (int (number_of_pooled_region_pages (descriptor_root s)) + int (length legacy)
                      - int (SCM_REGION_PAGE_FREELIST_SIZE cfg)) \<and>
           dom (region_pages s') = dom (region_pages s) - set (take j legacy)"
proof -
  from bd j have "j \<le> length legacy" by simp
  then have "length (take j legacy) = j" by simp
  moreover from j have "int j =
      max 0 (int (number_of_pooled_region_pages (descriptor_root s)) + int (length legacy)
               - int (SCM_REGION_PAGE_FREELIST_SIZE cfg))"
    by arith
  ultimately have len: "int (length (take j legacy)) =
      max 0 (int (number_of_pooled_region_pages (descriptor_root s)) + int (length legacy)
               - int (SCM_REGION_PAGE_FREELIST_SIZE cfg))"
    by (simp only:)
  show ?thesis
  proof (cases "age reg = current_time (descriptor_root s)")
    case True
    with l n1 obtain f where ps: "ps = f # legacy"
      by (cases ps) auto
    from n1 have ne: "legacy \<noteq> []" by auto
    from c ps have "f \<in> dom (region_pages s)"
      by (auto simp: consistent_def split: option.splits)
    then have d: "insert f (dom (region_pages s)) = dom (region_pages s)"
      by (rule insert_absorb)
    show ?thesis
      using recycle_region_fresh [OF c [unfolded ps] ne True bd] len
      by (simp add: freed_after_def dom_pages_after d j del: length_take)
  next
    case False
    with l have ps: "legacy = ps" by simp
    from n1 ps have ne: "ps \<noteq> []" by auto
    show ?thesis
      using recycle_region_zombie [OF c ne False bd] len
      by (simp add: freed_after_def dom_pages_after j ps del: length_take)
  qed
qed

text \<open>
  Scenario A: 8 + 4 - 10 = 2 pages are freed, the second and the third page of the region.
\<close>

theorem recycle_region_freed_pages_witness:
  "consistent scenario_A 0x10 region_A [0x1000, 0x2000, 0x3000, 0x4000, 0x5000] \<and>
   dc region_A = 0 \<and>
   number_of_pooled_region_pages (descriptor_root scenario_A) \<le> SCM_REGION_PAGE_FREELIST_SIZE cfg10 \<and>
   age region_A = current_time (descriptor_root scenario_A) \<and>
   (\<exists>s'. recycle_region cfg10 0x10 scenario_A = Inr s' \<and>
         freed s' = [0x2000, 0x3000] \<and>
         int (length (freed s')) - int (length (freed scenario_A)) = 2 \<and>
         dom (region_pages s') = dom (region_pages scenario_A) - {0x2000, 0x3000})"
proof -
  have c: "consistent scenario_A 0x10 region_A [0x1000, 0x2000, 0x3000, 0x4000, 0x5000]"
    by (simp add: consistent_def scenario_A_def region_A_def used_page_def)
  have d: "dc region_A = 0" by (simp add: region_A_def)
  have b: "number_of_pooled_region_pages (descriptor_root scenario_A)
      \<le> SCM_REGION_PAGE_FREELIST_SIZE cfg10"
    by (simp add: scenario_A_def cfg10_def)
  have a: "age region_A = current_time (descriptor_root scenario_A)"
    by (simp add: scenario_A_def region_A_def)
  have l: "[0x2000, 0x3000, 0x4000, 0x5000 :: addr] =
      (if age region_A = current_time (descriptor_root scenario_A)
       then tl [0x1000, 0x2000, 0x3000, 0x4000, 0x5000]
       else [0x1000, 0x2000, 0x3000, 0x4000, 0x5000])"
    by (simp add: a)
  have n: "1 \<le> length [0x2000, 0x3000, 0x4000, 0x5000 :: addr]" by simp
  have j: "(2::nat) = number_of_pooled_region_pages (descriptor_root scenario_A)
      + length [0x2000, 0x3000, 0x4000, 0x5000 :: addr] - SCM_REGION_PAGE_FREELIST_SIZE cfg10"
    by (simp add: scenario_A_def cfg10_def)
  have f: "freed scenario_A = []" "number_of_pooled_region_pages (descriptor_root scenario_A) = 8"
    "SCM_REGION_PAGE_FREELIST_SIZE cfg10 = 10"
    by (simp_all add: scenario_A_def cfg10_def)
  have t: "take 2 [0x2000, 0x3000, 0x4000, 0x5000 :: addr] = [0x2000, 0x3000]"
    by (simp add: numeral_2_eq_2)
  from recycle_region_freed_pages [OF c d b l n j] c d b a show ?thesis
    unfolding t f by simp
qed

text \<open>
  C6. \<open>expire_reg_descriptor_if_exists\<close> returns 0 exactly when the source
  yields no expired descriptor (the null pointer), and then the store is
  unchanged; the list is in the state the source left it in. When a
  region is yielded it returns 1 whether or not the decrement reached zero:
  if the decrement found a value other than 1, the only change is the
  decremented \<open>dc\<close>, and \<open>recycle_region\<close> is not run; if it found 1, the
  result is that of \<open>recycle_region\<close> on the region with \<open>dc = 0\<close>. On a
  consistent region (with a first page if it is fresh) the call returns.
\<close>

theorem expire_reg_descriptor_if_exists_result:
  assumes g: "source list = (r, list')"
  shows
   "(r = NULL \<longrightarrow> expire_reg_descriptor_if_exists cfg source list s = Inr (0, list', s)) \<and>
    (\<forall>reg. r \<noteq> NULL \<and> regions s r = Some reg \<and> dc reg \<noteq> 1 \<longrightarrow>
       expire_reg_descriptor_if_exists cfg source list s =
         Inr (1, list', upd_region r (\<lambda>x. x\<lparr>dc := dc reg - 1\<rparr>) s)) \<and>
    (\<forall>reg. r \<noteq> NULL \<and> regions s r = Some reg \<and> dc reg = 1 \<longrightarrow>
       expire_reg_descriptor_if_exists cfg source list s =
         (case recycle_region cfg r (upd_region r (\<lambda>x. x\<lparr>dc := 0\<rparr>) s) of
            Inl e \<Rightarrow> Inl e
          | Inr s' \<Rightarrow> Inr (1, list', s'))) \<and>
    (\<forall>reg ps. r \<noteq> NULL \<and> consistent s r reg ps \<and>
         (ps \<noteq> [] \<or> age reg \<noteq> current_time (descriptor_root s)) \<and>
         number_of_pooled_region_pages (descriptor_root s) \<le> SCM_REGION_PAGE_FREELIST_SIZE cfg \<longrightarrow>
       (\<exists>s'. expire_reg_descriptor_if_exists cfg source list s = Inr (1, list', s'))) \<and>
    (\<forall>ret l' s'. expire_reg_descriptor_if_exists cfg source list s = Inr (ret, l', s') \<longrightarrow>
       (ret = 0 \<longleftrightarrow> r = NULL))"
proof (intro conjI allI impI)
  assume "r = NULL"
  with g show "expire_reg_descriptor_if_exists cfg source list s = Inr (0, list', s)"
    by (simp add: expire_reg_descriptor_if_exists_def)
next
  fix reg
  assume "r \<noteq> NULL \<and> regions s r = Some reg \<and> dc reg \<noteq> 1"
  with g show "expire_reg_descriptor_if_exists cfg source list s =
      Inr (1, list', upd_region r (\<lambda>x. x\<lparr>dc := dc reg - 1\<rparr>) s)"
    by (simp add: expire_reg_descriptor_if_exists_def atomic_int_dec_and_test_eq)
next
  fix reg
  assume "r \<noteq> NULL \<and> regions s r = Some reg \<and> dc reg = 1"
  with g show "expire_reg_descriptor_if_exists cfg source list s =
      (case recycle_region cfg r (upd_region r (\<lambda>x. x\<lparr>dc := 0\<rparr>) s) of
         Inl e \<Rightarrow> Inl e
       | Inr s' \<Rightarrow> Inr (1, list', s'))"
    by (simp add: expire_reg_descriptor_if_exists_def atomic_int_dec_and_test_eq)
next
  fix reg ps
  assume a: "r \<noteq> NULL \<and> consistent s r reg ps \<and>
      (ps \<noteq> [] \<or> age reg \<noteq> current_time (descriptor_root s)) \<and>
      number_of_pooled_region_pages (descriptor_root s) \<le> SCM_REGION_PAGE_FREELIST_SIZE cfg"
  then have rg: "regions s r = Some reg" by (simp add: consistent_def)
  let ?s1 = "upd_region r (\<lambda>x. x\<lparr>dc := dc reg - 1\<rparr>) s"
  from a have c1: "consistent ?s1 r (reg\<lparr>dc := dc reg - 1\<rparr>) ps"
    by (simp add: consistent_upd_dc)
  have d1: "descriptor_root ?s1 = descriptor_root s" by (simp add: upd_region_def)
  from a have "\<exists>s'. recycle_region cfg r ?s1 = Inr s'"
    by (intro recycle_region_returns [OF c1]) (simp_all add: d1)
  then obtain s' where s': "recycle_region cfg r ?s1 = Inr s'" ..
  show "\<exists>s'. expire_reg_descriptor_if_exists cfg source list s = Inr (1, list', s')"
  proof (cases "dc reg = 1")
    case True
    with s' have "recycle_region cfg r (upd_region r (\<lambda>x. x\<lparr>dc := 0\<rparr>) s) = Inr s'" by simp
    with g a rg True show ?thesis
      by (simp add: expire_reg_descriptor_if_exists_def atomic_int_dec_and_test_eq)
  next
    case False
    with g a rg show ?thesis
      by (simp add: expire_reg_descriptor_if_exists_def atomic_int_dec_and_test_eq)
  qed
next
  fix ret l' s'
  assume "expire_reg_descriptor_if_exists cfg source list s = Inr (ret, l', s')"
  with g show "ret = 0 \<longleftrightarrow> r = NULL"
    by (auto simp: expire_reg_descriptor_if_exists_def atomic_int_dec_and_test_eq Let_def
        split: if_splits option.splits sum.splits)
qed

text \<open>
  The three cases on scenario B, with the source modelled as a queue of
  regions: an empty source; a region with \<open>dc = 2\<close>, which is only
  decremented; a region with \<open>dc = 1\<close>, which is recycled.
\<close>

theorem expire_reg_descriptor_if_exists_result_witness:
  "get_expired_mem [] = (NULL, []) \<and>
   expire_reg_descriptor_if_exists cfg10 get_expired_mem [] scenario_B = Inr (0, [], scenario_B) \<and>
   get_expired_mem [0x10] = (0x10, []) \<and>
   regions (scenario_B_live 2) 0x10 = Some (region_B\<lparr>dc := 2\<rparr>) \<and>
   expire_reg_descriptor_if_exists cfg10 get_expired_mem [0x10] (scenario_B_live 2) =
     Inr (1, [], scenario_B_live 1) \<and>
   consistent (scenario_B_live 1) 0x10 (region_B\<lparr>dc := 1\<rparr>) [0x1000] \<and>
   (\<exists>s'. expire_reg_descriptor_if_exists cfg10 get_expired_mem [0x10] (scenario_B_live 1) =
           Inr (1, [], s') \<and>
         recycle_region cfg10 0x10 scenario_B = Inr s')"
proof -
  have g0: "get_expired_mem [] = (NULL, [])" by simp
  have g1: "get_expired_mem [0x10] = (0x10, [])" by simp
  have n: "(0x10 :: addr) \<noteq> NULL" by simp
  have r2: "regions (scenario_B_live 2) 0x10 = Some (region_B\<lparr>dc := 2\<rparr>)"
    by (simp add: scenario_B_live_def)
  have d2: "dc (region_B\<lparr>dc := 2\<rparr>) \<noteq> 1" by simp
  have u2: "upd_region 0x10 (\<lambda>x. x\<lparr>dc := dc (region_B\<lparr>dc := 2\<rparr>) - 1\<rparr>) (scenario_B_live 2)
      = scenario_B_live 1"
    by (simp add: scenario_B_live_def upd_region_def)
  have r1: "regions (scenario_B_live 1) 0x10 = Some (region_B\<lparr>dc := 1\<rparr>)"
    by (simp add: scenario_B_live_def)
  have d1: "dc (region_B\<lparr>dc := 1\<rparr>) = 1" by simp
  have u1: "upd_region 0x10 (\<lambda>x. x\<lparr>dc := 0\<rparr>) (scenario_B_live 1) = scenario_B"
    by (simp add: scenario_B_live_def upd_region_def scenario_B_def region_B_def)
  have c1: "consistent (scenario_B_live 1) 0x10 (region_B\<lparr>dc := 1\<rparr>) [0x1000]"
    by (simp add: consistent_def scenario_B_live_def scenario_B_def region_B_def used_page_def)
  have b1: "number_of_pooled_region_pages (descriptor_root (scenario_B_live 1))
      \<le> SCM_REGION_PAGE_FREELIST_SIZE cfg10"
    by (simp add: scenario_B_live_def scenario_B_def cfg10_def)
  from expire_reg_descriptor_if_exists_result [of get_expired_mem "[]" NULL "[]" cfg10 scenario_B, OF g0]
  have 1: "expire_reg_descriptor_if_exists cfg10 get_expired_mem [] scenario_B =
      Inr (0, [], scenario_B)"
    by simp
  from expire_reg_descriptor_if_exists_result
    [of get_expired_mem "[0x10]" "0x10" "[]" cfg10 "scenario_B_live 2", OF g1] n r2 d2
  have 2: "expire_reg_descriptor_if_exists cfg10 get_expired_mem [0x10] (scenario_B_live 2) =
      Inr (1, [], scenario_B_live 1)"
    unfolding u2 [symmetric] by blast
  from expire_reg_descriptor_if_exists_result
    [of get_expired_mem "[0x10]" "0x10" "[]" cfg10 "scenario_B_live 1", OF g1] n r1 d1
  have 3: "expire_reg_descriptor_if_exists cfg10 get_expired_mem [0x10] (scenario_B_live 1) =
      (case recycle_region cfg10 0x10 scenario_B of
         Inl e \<Rightarrow> Inl e | Inr s' \<Rightarrow> Inr (1, [], s'))"
    unfolding u1 [symmetric] by blast
  from expire_reg_descriptor_if_exists_result
    [of get_expired_mem "[0x10]" "0x10" "[]" cfg10 "scenario_B_live 1", OF g1] n c1 b1
  obtain s' where 4: "expire_reg_descriptor_if_exists cfg10 get_expired_mem [0x10] (scenario_B_live 1) =
      Inr (1, [], s')"
    by blast
  with 3 have "recycle_region cfg10 0x10 scenario_B = Inr s'"
    by (simp split: sum.splits)
  with 4 have 5: "\<exists>s'. expire_reg_descriptor_if_exists cfg10 get_expired_mem [0x10] (scenario_B_live 1) =
      Inr (1, [], s') \<and> recycle_region cfg10 0x10 scenario_B = Inr s'"
    by blast
  from g0 1 g1 r2 2 c1 5 show ?thesis by (intro conjI)
qed

text \<open>
  C7. Wherever \<open>recycle_region\<close> resets the cursor, the bound is the payload
  address plus the payload size minus 1. The early return of a fresh region
  with one page (lines 87-88, scenario C) computes this value; the re-anchor
  path (lines 271-272, scenario A) computes the payload address plus the
  payload size, which differs from it.
\<close>

theorem recycle_region_bound_two_paths:
  "(\<exists>s' reg'. recycle_region cfg10 0x10 scenario_C = Inr s' \<and> regions s' 0x10 = Some reg' \<and>
      last_address_in_last_page reg' =
        memory_addr cfg10 0x1000 + of_nat (REGION_PAGE_PAYLOAD_SIZE cfg10) - 1) \<and>
   (\<exists>s' reg'. recycle_region cfg10 0x10 scenario_A = Inr s' \<and> regions s' 0x10 = Some reg' \<and>
      last_address_in_last_page reg' =
        memory_addr cfg10 0x1000 + of_nat (REGION_PAGE_PAYLOAD_SIZE cfg10) \<and>
      last_address_in_last_page reg' \<noteq>
        memory_addr cfg10 0x1000 + of_nat (REGION_PAGE_PAYLOAD_SIZE cfg10) - 1)"
proof -
  have cC: "consistent scenario_C 0x10 region_C [0x1000]"
    by (simp add: consistent_def scenario_C_def region_C_def used_page_def)
  have aC: "age region_C = current_time (descriptor_root scenario_C)"
    by (simp add: scenario_C_def region_C_def)
  have cA: "consistent scenario_A 0x10 region_A [0x1000, 0x2000, 0x3000, 0x4000, 0x5000]"
    by (simp add: consistent_def scenario_A_def region_A_def used_page_def)
  have ne: "[0x2000, 0x3000, 0x4000, 0x5000 :: addr] \<noteq> []" by simp
  have bA: "number_of_pooled_region_pages (descriptor_root scenario_A)
      \<le> SCM_REGION_PAGE_FREELIST_SIZE cfg10"
    by (simp add: scenario_A_def cfg10_def)
  have aA: "age region_A = current_time (descriptor_root scenario_A)"
    by (simp add: scenario_A_def region_A_def)
  have 1: "\<exists>s' reg'. recycle_region cfg10 0x10 scenario_C = Inr s' \<and> regions s' 0x10 = Some reg' \<and>
      last_address_in_last_page reg' =
        memory_addr cfg10 0x1000 + of_nat (REGION_PAGE_PAYLOAD_SIZE cfg10) - 1"
    unfolding recycle_region_fresh_single [OF cC aC] by simp
  from recycle_region_fresh_reanchored [OF cA ne aA bA]
  have 2: "\<exists>s' reg'. recycle_region cfg10 0x10 scenario_A = Inr s' \<and> regions s' 0x10 = Some reg' \<and>
      last_address_in_last_page reg' =
        memory_addr cfg10 0x1000 + of_nat (REGION_PAGE_PAYLOAD_SIZE cfg10) \<and>
      last_address_in_last_page reg' \<noteq>
        memory_addr cfg10 0x1000 + of_nat (REGION_PAGE_PAYLOAD_SIZE cfg10) - 1"
    by (auto simp: word_pred_neq)
  from 1 2 show ?thesis by (rule conjI)
qed

text \<open>
  C8. For every fresh region with exactly one page and \<open>dc = 0\<close>,
  \<open>recycle_region\<close> returns without touching the pool: the counter stays 1,
  first and last page are unchanged and equal, the region still has the chain
  of that one page, \<open>dc\<close> is 0, the descriptor root (pool head and pooled
  count) is as before, nothing is freed, every page other than the first is
  unchanged, and so is the chain of the pool.
\<close>

theorem recycle_region_fresh_single_page:
  assumes c: "consistent s region reg [f]" and "dc reg = 0"
    and fr: "age reg = current_time (descriptor_root s)"
  shows "\<exists>s' reg'. recycle_region cfg region s = Inr s' \<and> regions s' region = Some reg' \<and>
           number_of_region_pages reg' = 1 \<and>
           firstPage reg' = firstPage reg \<and> lastPage reg' = lastPage reg \<and>
           firstPage reg' = lastPage reg' \<and>
           consistent s' region reg' [f] \<and>
           dc reg' = 0 \<and>
           descriptor_root s' = descriptor_root s \<and>
           freed s' = freed s \<and>
           (\<forall>p. p \<noteq> f \<longrightarrow> region_pages s' p = region_pages s p) \<and>
           (\<forall>qs. chain (region_pages s) (region_page_pool (descriptor_root s)) qs \<and> f \<notin> set qs \<longrightarrow>
                 chain (region_pages s') (region_page_pool (descriptor_root s')) qs)"
proof -
  from c have f: "f \<noteq> NULL" "firstPage reg = f" "lastPage reg = f"
      "number_of_region_pages reg = 1" "region \<noteq> NULL"
    by (auto simp: consistent_def split: option.splits)
  show ?thesis
    unfolding recycle_region_fresh_single [OF c fr]
    using f by (simp add: consistent_def zero_page_def chain_upd)
qed

text \<open>
  Scenario C of the specification: a fresh region of 1 page.
\<close>

theorem recycle_region_fresh_single_page_witness:
  "consistent scenario_C 0x10 region_C [0x1000] \<and> dc region_C = 0 \<and>
   age region_C = current_time (descriptor_root scenario_C) \<and>
   chain (region_pages scenario_C) (region_page_pool (descriptor_root scenario_C))
     [0xA100, 0xA200, 0xA300] \<and>
   (\<exists>s' reg'. recycle_region cfg10 0x10 scenario_C = Inr s' \<and> regions s' 0x10 = Some reg' \<and>
      number_of_region_pages reg' = 1 \<and> firstPage reg' = 0x1000 \<and> lastPage reg' = 0x1000 \<and>
      dc reg' = 0 \<and>
      descriptor_root s' = descriptor_root scenario_C \<and>
      freed s' = [] \<and>
      region_pages s' 0xA100 = region_pages scenario_C 0xA100 \<and>
      chain (region_pages s') (region_page_pool (descriptor_root s')) [0xA100, 0xA200, 0xA300])"
proof -
  have c: "consistent scenario_C 0x10 region_C [0x1000]"
    by (simp add: consistent_def scenario_C_def region_C_def used_page_def)
  have d: "dc region_C = 0" by (simp add: region_C_def)
  have a: "age region_C = current_time (descriptor_root scenario_C)"
    by (simp add: scenario_C_def region_C_def)
  have p: "chain (region_pages scenario_C) (region_page_pool (descriptor_root scenario_C))
      [0xA100, 0xA200, 0xA300]"
    by (simp add: scenario_C_def used_page_def)
  have q: "(0x1000 :: addr) \<notin> set [0xA100, 0xA200, 0xA300]" "(0xA100 :: addr) \<noteq> 0x1000"
    by simp_all
  have f: "freed scenario_C = []" "firstPage region_C = 0x1000" "lastPage region_C = 0x1000"
    by (simp_all add: scenario_C_def region_C_def)
  from recycle_region_fresh_single_page [OF c d a, of cfg10]
  obtain s' reg' where r: "recycle_region cfg10 0x10 scenario_C = Inr s'"
      "regions s' 0x10 = Some reg'"
      "number_of_region_pages reg' = 1" "firstPage reg' = firstPage region_C"
      "lastPage reg' = lastPage region_C" "dc reg' = 0"
      "descriptor_root s' = descriptor_root scenario_C" "freed s' = freed scenario_C"
      and fr: "\<forall>p. p \<noteq> 0x1000 \<longrightarrow> region_pages s' p = region_pages scenario_C p"
      and pl: "\<forall>qs. chain (region_pages scenario_C) (region_page_pool (descriptor_root scenario_C)) qs \<and>
                 0x1000 \<notin> set qs \<longrightarrow>
                 chain (region_pages s') (region_page_pool (descriptor_root s')) qs"
    by blast
  from fr q(2) have "region_pages s' 0xA100 = region_pages scenario_C 0xA100" by blast
  moreover from pl p q(1)
  have "chain (region_pages s') (region_page_pool (descriptor_root s')) [0xA100, 0xA200, 0xA300]"
    by blast
  ultimately show ?thesis
    using r c d a p unfolding f by simp
qed

text \<open>
  C9. For every zombie region with at least one page, \<open>recycle_region\<close>
  returns with first and last page null and counter 0, but the cursor still
  points into the former first page: \<open>next_free_address\<close> is the address of
  the payload of that page and \<open>last_address_in_last_page\<close> is that
  address plus the payload size, although that page is now the head of the
  pool (when the pages fit) or has been freed (when they do not).
\<close>

theorem recycle_region_zombie_stale_cursor:
  assumes c: "consistent s region reg ps" and dc: "dc reg = 0"
    and z: "age reg \<noteq> current_time (descriptor_root s)"
    and ne: "ps \<noteq> []"
    and bd: "number_of_pooled_region_pages (descriptor_root s) \<le> SCM_REGION_PAGE_FREELIST_SIZE cfg"
  shows "\<exists>s' reg'. recycle_region cfg region s = Inr s' \<and> regions s' region = Some reg' \<and>
           number_of_region_pages reg' = 0 \<and> firstPage reg' = NULL \<and> lastPage reg' = NULL \<and>
           next_free_address reg' = memory_addr cfg (firstPage reg) \<and>
           last_address_in_last_page reg' =
             memory_addr cfg (firstPage reg) + of_nat (REGION_PAGE_PAYLOAD_SIZE cfg) \<and>
           (if number_of_pooled_region_pages (descriptor_root s) + length ps
                 \<le> SCM_REGION_PAGE_FREELIST_SIZE cfg
            then region_page_pool (descriptor_root s') = firstPage reg
            else region_pages s' (firstPage reg) = None \<and> firstPage reg \<in> set (freed s'))"
proof -
  let ?J = "number_of_pooled_region_pages (descriptor_root s) + length ps
                - SCM_REGION_PAGE_FREELIST_SIZE cfg"
  from c ne obtain ls where ps: "ps = firstPage reg # ls"
    by (cases ps) (auto simp: consistent_def)
  have fits: "region_page_pool (root_after cfg s ps) = firstPage reg"
    if "number_of_pooled_region_pages (descriptor_root s) + length ps
          \<le> SCM_REGION_PAGE_FREELIST_SIZE cfg"
    using that ps by (simp add: root_after_def Let_def)
  have over: "firstPage reg \<in> set (take ?J ps)"
    if "\<not> number_of_pooled_region_pages (descriptor_root s) + length ps
          \<le> SCM_REGION_PAGE_FREELIST_SIZE cfg"
  proof -
    from that obtain i where "?J = Suc i" by (cases ?J) auto
    then show ?thesis by (simp add: ps)
  qed
  have gone: "pages_after cfg s ps (region_pages s) (firstPage reg) = None"
    if "\<not> number_of_pooled_region_pages (descriptor_root s) + length ps
          \<le> SCM_REGION_PAGE_FREELIST_SIZE cfg"
  proof -
    from over [OF that] have "firstPage reg \<notin> dom (region_pages s) - set (take ?J ps)" by blast
    then have "firstPage reg \<notin> dom (pages_after cfg s ps (region_pages s))"
      unfolding dom_pages_after .
    then show ?thesis by blast
  qed
  show ?thesis
    unfolding recycle_region_zombie [OF c ne z bd]
    using fits over gone ps by (simp add: freed_after_def)
qed

text \<open>
  Scenario B: the former first page \<open>0x1000\<close> is the head of the pool, and the cursor points into it.
\<close>

theorem recycle_region_zombie_stale_cursor_witness:
  "consistent scenario_B 0x10 region_B [0x1000] \<and> dc region_B = 0 \<and>
   age region_B \<noteq> current_time (descriptor_root scenario_B) \<and>
   number_of_pooled_region_pages (descriptor_root scenario_B) \<le> SCM_REGION_PAGE_FREELIST_SIZE cfg10 \<and>
   (\<exists>s' reg'. recycle_region cfg10 0x10 scenario_B = Inr s' \<and> regions s' 0x10 = Some reg' \<and>
      number_of_region_pages reg' = 0 \<and> firstPage reg' = NULL \<and> lastPage reg' = NULL \<and>
      next_free_address reg' = 0x1010 \<and>
      last_address_in_last_page reg' = 0x1014 \<and>
      region_page_pool (descriptor_root s') = 0x1000)"
proof -
  have c: "consistent scenario_B 0x10 region_B [0x1000]"
    by (simp add: consistent_def scenario_B_def region_B_def used_page_def)
  have d: "dc region_B = 0" by (simp add: region_B_def)
  have z: "age region_B \<noteq> current_time (descriptor_root scenario_B)"
    by (simp add: scenario_B_def region_B_def)
  have ne: "[0x1000 :: addr] \<noteq> []" by simp
  have b: "number_of_pooled_region_pages (descriptor_root scenario_B)
      \<le> SCM_REGION_PAGE_FREELIST_SIZE cfg10"
    by (simp add: scenario_B_def cfg10_def)
  have f: "number_of_pooled_region_pages (descriptor_root scenario_B) + length [0x1000 :: addr]
      \<le> SCM_REGION_PAGE_FREELIST_SIZE cfg10"
    by (simp add: scenario_B_def cfg10_def)
  have v: "firstPage region_B = 0x1000" "memory_addr cfg10 0x1000 = 0x1010"
    "REGION_PAGE_PAYLOAD_SIZE cfg10 = 4"
    "number_of_pooled_region_pages (descriptor_root scenario_B) = 3"
    "SCM_REGION_PAGE_FREELIST_SIZE cfg10 = 10"
    by (simp_all add: memory_addr_def cfg10_def region_B_def scenario_B_def)
  from recycle_region_zombie_stale_cursor [OF c d z ne b] c d z b show ?thesis
    by (simp add: v)
qed

text \<open>
  C10. For \<open>N\<close> concurrent calls of \<open>atomic_int_dec_and_test\<close> on one
  cell that starts at \<open>N\<close>, exactly one call returns true, whatever the
  order in which the locked instructions take effect; it is the call that
  takes effect last, and the cell ends at 0.
\<close>

theorem atomic_int_dec_and_test_exactly_one:
  assumes "0 < N" and "N < 2 ^ 32" and "length sched = N"
  shows "length (filter snd (fst (run_decrements sched (of_nat N)))) = 1 \<and>
         filter snd (fst (run_decrements sched (of_nat N))) = [(last sched, True)] \<and>
         map fst (fst (run_decrements sched (of_nat N))) = sched \<and>
         snd (run_decrements sched (of_nat N)) = 0"
proof -
  from assms(2) have "unat (of_nat N :: 32 word) = N"
    by (simp add: unat_of_nat)
  with assms have "unat (of_nat N :: 32 word) = length sched" "sched \<noteq> []" by auto
  from run_decrements_last [OF this] show ?thesis by simp
qed

text \<open>
  Three threads, taking effect in the order 2, 0, 1: thread 1 sees the transition to zero.
\<close>

theorem atomic_int_dec_and_test_exactly_one_witness:
  "(0::nat) < 3 \<and> (3::nat) < 2 ^ 32 \<and> length [2, 0, 1 :: nat] = 3 \<and>
   length (filter snd (fst (run_decrements [2, 0, 1 :: nat] 3))) = 1 \<and>
   filter snd (fst (run_decrements [2, 0, 1 :: nat] 3)) = [(1, True)] \<and>
   snd (run_decrements [2, 0, 1 :: nat] 3) = 0"
  using atomic_int_dec_and_test_exactly_one [of 3 "[2, 0, 1 :: nat]"]
  by simp

end
